theory Spec2Isabelle
  imports Main "HOL-Library.Word" "HOL-Library.Sublist"
begin

unbundle bit_operations_syntax

section \<open>The regular-expression front end (regex.h, regex.c)\<close>

subsection \<open>Tokens\<close>

text \<open>
  The enum \<open>item_type\<close> of regex.h, in its declaration order, and the struct \<open>item\<close>
  (its fields \<open>value\<close> and \<open>type\<close> are called \<open>ivalue\<close> and \<open>itype\<close> here).
\<close>

datatype item_type =
    KLEENE_STAR
  | POSITIVE_CLOSURE
  | OPTIONAL
  | CONCATENATION
  | ALTERNATION
  | OPERAND
  | L_PARENTHESIS
  | R_PARENTHESIS

record item =
  ivalue :: char
  itype :: item_type

definition CONCAT_SYMBOL :: char where
  "CONCAT_SYMBOL = CHR ''.''"

definition KLEENE_STAR_SYMBOL :: char where
  "KLEENE_STAR_SYMBOL = CHR ''*''"

definition ALTERNATION_SYMBOL :: char where
  "ALTERNATION_SYMBOL = CHR ''|''"

definition LEFT_PARENTHESIS_SYMBOL :: char where
  "LEFT_PARENTHESIS_SYMBOL = CHR ''(''"

definition RIGHT_PARENTHESIS_SYMBOL :: char where
  "RIGHT_PARENTHESIS_SYMBOL = CHR '')''"

definition POSITIVE_CLOSURE_SYMBOL :: char where
  "POSITIVE_CLOSURE_SYMBOL = CHR ''+''"

definition OPTIONAL_SYMBOL :: char where
  "OPTIONAL_SYMBOL = CHR ''?''"

definition ESCAPE_SYMBOL :: char where
  "ESCAPE_SYMBOL = CHR 0x5C"

lemmas symbol_defs =
  CONCAT_SYMBOL_def KLEENE_STAR_SYMBOL_def ALTERNATION_SYMBOL_def
  LEFT_PARENTHESIS_SYMBOL_def RIGHT_PARENTHESIS_SYMBOL_def
  POSITIVE_CLOSURE_SYMBOL_def OPTIONAL_SYMBOL_def ESCAPE_SYMBOL_def

fun get_precedence :: "item_type \<Rightarrow> int" where
  "get_precedence KLEENE_STAR = 3"
| "get_precedence POSITIVE_CLOSURE = 3"
| "get_precedence OPTIONAL = 3"
| "get_precedence CONCATENATION = 2"
| "get_precedence ALTERNATION = 1"
| "get_precedence _ = 0"

text \<open>The C function returns the int \<open>left && right\<close>; the model returns the truth value.\<close>

definition should_insert_concat :: "item \<Rightarrow> item \<Rightarrow> bool" where
  "should_insert_concat current nxt =
     (let left =
            (itype current = OPERAND \<or>
             itype current = R_PARENTHESIS \<or>
             itype current = KLEENE_STAR \<or>
             itype current = POSITIVE_CLOSURE \<or>
             itype current = OPTIONAL);
          right =
            (itype nxt = OPERAND \<or>
             itype nxt = L_PARENTHESIS)
      in left \<and> right)"

definition new_item :: "char \<Rightarrow> item_type \<Rightarrow> item" where
  "new_item v t = \<lparr>ivalue = v, itype = t\<rparr>"

definition get_item_type :: "char \<Rightarrow> item_type" where
  "get_item_type c =
     (if c = KLEENE_STAR_SYMBOL then KLEENE_STAR
      else if c = POSITIVE_CLOSURE_SYMBOL then POSITIVE_CLOSURE
      else if c = OPTIONAL_SYMBOL then OPTIONAL
      else if c = CONCAT_SYMBOL then CONCATENATION
      else if c = ALTERNATION_SYMBOL then ALTERNATION
      else if c = LEFT_PARENTHESIS_SYMBOL then L_PARENTHESIS
      else if c = RIGHT_PARENTHESIS_SYMBOL then R_PARENTHESIS
      else OPERAND)"

subsection \<open>Tokenizer\<close>

text \<open>
  A C string argument is a \<open>string option\<close>: \<open>None\<close> is the null pointer. An array
  that a function returns together with its element count is the list of its first
  \<open>count\<close> elements, and a returned null pointer is \<open>None\<close>. Allocation is taken to
  succeed with a non-null pointer (also for a request of zero bytes), and the
  out-parameters \<open>out_size\<close> are never null, as in every call of the repository.

  The loop of \<open>itemize_regex\<close>: \<open>i\<close> is the loop index, the list holds
  \<open>items[0 .. count)\<close>, and \<open>items[count++] = x\<close> appends.
\<close>

function itemize_loop :: "string \<Rightarrow> nat \<Rightarrow> item list \<Rightarrow> item list" where
  "itemize_loop regex_str i items =
     (if i < length regex_str then
        (let c = regex_str ! i in
         if c = ESCAPE_SYMBOL \<and> i + 1 < length regex_str
         then itemize_loop regex_str (i + 2) (items @ [new_item (regex_str ! (i + 1)) OPERAND])
         else itemize_loop regex_str (i + 1) (items @ [new_item c (get_item_type c)]))
      else items)"
  by pat_completeness auto
termination
  by (relation "measure (\<lambda>(s, i, items). length s - i)") auto

declare itemize_loop.simps [simp del]

definition itemize_regex :: "string option \<Rightarrow> item list option" where
  "itemize_regex regex_str =
     (case regex_str of
        None \<Rightarrow> None
      | Some s \<Rightarrow> Some (itemize_loop s 0 []))"

subsection \<open>Concatenation expander\<close>

text \<open>
  The loop of \<open>implicit_to_explicit_concatenation\<close> over the index \<open>i\<close>; the list
  holds \<open>result[0 .. count)\<close>. The caller passes the array and its size separately.
\<close>

function concat_loop :: "item list \<Rightarrow> nat \<Rightarrow> nat \<Rightarrow> item list \<Rightarrow> item list" where
  "concat_loop items sz i result =
     (if i < sz then
        (let result1 = result @ [items ! i] in
         if i < sz - 1 \<and> should_insert_concat (items ! i) (items ! (i + 1))
         then concat_loop items sz (i + 1) (result1 @ [new_item CONCAT_SYMBOL CONCATENATION])
         else concat_loop items sz (i + 1) result1)
      else result)"
  by pat_completeness auto
termination
  by (relation "measure (\<lambda>(items, sz, i, result). sz - i)") auto

declare concat_loop.simps [simp del]

definition implicit_to_explicit_concatenation ::
    "item list option \<Rightarrow> int \<Rightarrow> item list option" where
  "implicit_to_explicit_concatenation items sz =
     (case items of
        None \<Rightarrow> None
      | Some its \<Rightarrow>
          if sz \<le> 0 then None
          else Some (concat_loop its (nat sz) 0 []))"

subsection \<open>Shunting yard\<close>

text \<open>
  The operator stack is a list with its top at the head; \<open>output[out_count++] = x\<close>
  appends to the output list. The two inner \<open>while\<close> loops pop from the stack.
\<close>

fun pop_higher :: "item \<Rightarrow> item list \<Rightarrow> item list \<Rightarrow> item list \<times> item list" where
  "pop_higher current [] output = ([], output)"
| "pop_higher current (t # stack) output =
     (if itype t \<noteq> L_PARENTHESIS \<and>
         get_precedence (itype t) \<ge> get_precedence (itype current)
      then pop_higher current stack (output @ [t])
      else (t # stack, output))"

fun pop_to_paren :: "item list \<Rightarrow> item list \<Rightarrow> item list \<times> item list" where
  "pop_to_paren [] output = ([], output)"
| "pop_to_paren (t # stack) output =
     (if itype t \<noteq> L_PARENTHESIS
      then pop_to_paren stack (output @ [t])
      else (t # stack, output))"

text \<open>The final \<open>while (top >= 0)\<close> loop; \<open>None\<close> is the \<open>return NULL\<close> inside it.\<close>

fun pop_rest :: "item list \<Rightarrow> item list \<Rightarrow> item list option" where
  "pop_rest [] output = Some output"
| "pop_rest (t # stack) output =
     (if itype t = L_PARENTHESIS then None
      else pop_rest stack (output @ [t]))"

text \<open>The \<open>for\<close> loop over the items, one item per step, with the \<open>switch\<close> on its type.\<close>

fun sy_loop :: "item list \<Rightarrow> item list \<Rightarrow> item list \<Rightarrow> item list option" where
  "sy_loop [] stack output = pop_rest stack output"
| "sy_loop (current # rest) stack output =
     (case itype current of
        OPERAND \<Rightarrow> sy_loop rest stack (output @ [current])
      | L_PARENTHESIS \<Rightarrow> sy_loop rest (current # stack) output
      | R_PARENTHESIS \<Rightarrow>
          (case pop_to_paren stack output of
             ([], _) \<Rightarrow> None
           | (_ # stack', output') \<Rightarrow> sy_loop rest stack' output')
      | _ \<Rightarrow>
          (case pop_higher current stack output of
             (stack', output') \<Rightarrow> sy_loop rest (current # stack') output'))"

definition shunting_yard :: "item list option \<Rightarrow> int \<Rightarrow> item list option" where
  "shunting_yard items sz =
     (case items of
        None \<Rightarrow> None
      | Some its \<Rightarrow>
          if sz \<le> 0 then None
          else sy_loop (take (nat sz) its) [] [])"

subsection \<open>The parser\<close>

text \<open>
  The struct \<open>regex\<close>: the pointer \<open>items\<close> (\<open>None\<close> when null) and \<open>size\<close>
  (called \<open>rsize\<close> here). The empty result has a null pointer and size 0.
\<close>

record regex =
  items :: "item list option"
  rsize :: int

definition empty_regex :: regex where
  "empty_regex = \<lparr>items = None, rsize = 0\<rparr>"

definition parse_regex :: "string option \<Rightarrow> regex" where
  "parse_regex regex_str =
     (if regex_str = None then empty_regex
      else
        case itemize_regex regex_str of
          None \<Rightarrow> empty_regex
        | Some step1 \<Rightarrow>
            (case implicit_to_explicit_concatenation (Some step1) (int (length step1)) of
               None \<Rightarrow> empty_regex
             | Some step2 \<Rightarrow>
                 (case shunting_yard (Some step2) (int (length step2)) of
                    None \<Rightarrow> empty_regex
                  | Some step3 \<Rightarrow> \<lparr>items = Some step3, rsize = int (length step3)\<rparr>)))"

section \<open>The automaton (nfa.c)\<close>

text \<open>
  The header nfa.h is not among the sources. The structs below are reconstructed from
  the way nfa.c uses their fields. The macro \<open>EPSILON_SYMBOL\<close> of that header is a
  parameter of every function that depends on it: nfa.c uses it only through the byte
  \<open>(unsigned char)EPSILON_SYMBOL\<close> (the column-0 entry of the table and the symbol of
  the epsilon transitions), and \<open>add_symbol\<close> leaves the alphabet unchanged for that
  byte by either of its two tests.

  Conventions of the model. State ids are natural numbers (\<open>uint8_t\<close> in C) and a state
  set is a 64-bit word; \<open>1ULL << s\<close> is \<open>push_bit s 1\<close>. An array that grows by
  \<open>a[count++] = x\<close> is the list of its first \<open>count\<close> elements. The C code never
  checks its capacities, so the model describes it for automata of at most 64 states.
\<close>

subsection \<open>Alphabet\<close>

record alphabet =
  char_to_col :: "char \<Rightarrow> int"
  symbols :: "char list"
  symbol_count :: nat

definition new_alphabet :: "char \<Rightarrow> alphabet" where
  "new_alphabet EPSILON_SYMBOL =
     \<lparr>char_to_col = (\<lambda>i. - 1)(EPSILON_SYMBOL := 0),
      symbols = [EPSILON_SYMBOL],
      symbol_count = 1\<rparr>"

definition add_symbol :: "char \<Rightarrow> alphabet \<Rightarrow> char \<Rightarrow> alphabet" where
  "add_symbol EPSILON_SYMBOL a s =
     (if s = EPSILON_SYMBOL then a
      else if char_to_col a s \<noteq> - 1 then a
      else
        (let col = symbol_count a in
         \<lparr>char_to_col = (char_to_col a)(s := int col),
          symbols = symbols a @ [s],
          symbol_count = symbol_count a + 1\<rparr>))"

subsection \<open>States manager and Thompson fragments\<close>

record t_transition =
  from_state :: nat
  symbol :: char
  to_state :: nat

record states_manager =
  next_id :: nat
  states :: "nat list"
  states_count :: nat
  transitions :: "t_transition list"
  transitions_count :: nat
  manager_alphabet :: alphabet

text \<open>The struct \<open>t_nfa\<close>, with its fields \<open>start\<close> and \<open>end\<close>.\<close>

record t_nfa =
  t_start :: nat
  t_end :: nat

definition new_states_manager :: "char \<Rightarrow> states_manager" where
  "new_states_manager EPSILON_SYMBOL =
     \<lparr>next_id = 0,
      states = [],
      states_count = 0,
      transitions = [],
      transitions_count = 0,
      manager_alphabet = new_alphabet EPSILON_SYMBOL\<rparr>"

text \<open>A function that changes the manager through its pointer returns the new manager.\<close>

definition new_state :: "states_manager \<Rightarrow> nat \<times> states_manager" where
  "new_state manager =
     (let id = next_id manager in
      (id, manager\<lparr>next_id := next_id manager + 1,
                    states := states manager @ [id],
                    states_count := states_count manager + 1\<rparr>))"

definition add_transition ::
    "char \<Rightarrow> states_manager \<Rightarrow> nat \<Rightarrow> char \<Rightarrow> nat \<Rightarrow> states_manager" where
  "add_transition EPSILON_SYMBOL manager from_st symb to_st =
     (let t = \<lparr>from_state = from_st, symbol = symb, to_state = to_st\<rparr> in
      manager\<lparr>transitions := transitions manager @ [t],
               transitions_count := transitions_count manager + 1,
               manager_alphabet := add_symbol EPSILON_SYMBOL (manager_alphabet manager) symb\<rparr>)"

definition symbol_nfa :: "char \<Rightarrow> states_manager \<Rightarrow> char \<Rightarrow> t_nfa \<times> states_manager" where
  "symbol_nfa EPSILON_SYMBOL manager symb =
     (let (s, m1) = new_state manager;
          (e, m2) = new_state m1
      in (\<lparr>t_start = s, t_end = e\<rparr>, add_transition EPSILON_SYMBOL m2 s symb e))"

definition concat_nfa ::
    "char \<Rightarrow> states_manager \<Rightarrow> t_nfa \<Rightarrow> t_nfa \<Rightarrow> t_nfa \<times> states_manager" where
  "concat_nfa EPSILON_SYMBOL manager a b =
     (let m1 = add_transition EPSILON_SYMBOL manager (t_end a) EPSILON_SYMBOL (t_start b)
      in (\<lparr>t_start = t_start a, t_end = t_end b\<rparr>, m1))"

definition union_nfa ::
    "char \<Rightarrow> states_manager \<Rightarrow> t_nfa \<Rightarrow> t_nfa \<Rightarrow> t_nfa \<times> states_manager" where
  "union_nfa EPSILON_SYMBOL manager a b =
     (let (s, m1) = new_state manager;
          (e, m2) = new_state m1;
          m3 = add_transition EPSILON_SYMBOL m2 s EPSILON_SYMBOL (t_start a);
          m4 = add_transition EPSILON_SYMBOL m3 s EPSILON_SYMBOL (t_start b);
          m5 = add_transition EPSILON_SYMBOL m4 (t_end a) EPSILON_SYMBOL e;
          m6 = add_transition EPSILON_SYMBOL m5 (t_end b) EPSILON_SYMBOL e
      in (\<lparr>t_start = s, t_end = e\<rparr>, m6))"

definition positive_closure_nfa ::
    "char \<Rightarrow> states_manager \<Rightarrow> t_nfa \<Rightarrow> t_nfa \<times> states_manager" where
  "positive_closure_nfa EPSILON_SYMBOL manager a =
     (let (s, m1) = new_state manager;
          (e, m2) = new_state m1;
          m3 = add_transition EPSILON_SYMBOL m2 s EPSILON_SYMBOL (t_start a);
          m4 = add_transition EPSILON_SYMBOL m3 (t_end a) EPSILON_SYMBOL (t_start a);
          m5 = add_transition EPSILON_SYMBOL m4 (t_end a) EPSILON_SYMBOL e
      in (\<lparr>t_start = s, t_end = e\<rparr>, m5))"

definition kleene_closure_nfa ::
    "char \<Rightarrow> states_manager \<Rightarrow> t_nfa \<Rightarrow> t_nfa \<times> states_manager" where
  "kleene_closure_nfa EPSILON_SYMBOL manager a =
     (let (result, m1) = positive_closure_nfa EPSILON_SYMBOL manager a;
          m2 = add_transition EPSILON_SYMBOL m1 (t_start result) EPSILON_SYMBOL (t_end result)
      in (result, m2))"

definition optional_nfa ::
    "char \<Rightarrow> states_manager \<Rightarrow> t_nfa \<Rightarrow> t_nfa \<times> states_manager" where
  "optional_nfa EPSILON_SYMBOL manager a =
     (let (s, m1) = new_state manager;
          (e, m2) = new_state m1;
          m3 = add_transition EPSILON_SYMBOL m2 s EPSILON_SYMBOL (t_start a);
          m4 = add_transition EPSILON_SYMBOL m3 s EPSILON_SYMBOL e;
          m5 = add_transition EPSILON_SYMBOL m4 (t_end a) EPSILON_SYMBOL e
      in (\<lparr>t_start = s, t_end = e\<rparr>, m5))"

subsection \<open>Thompson builder\<close>

text \<open>
  The fragment stack of \<open>regex_to_nfa\<close> is a list with its top at the head. The C code
  reads \<open>stack[top--]\<close> without a test; a read below the bottom of the stack is the
  error \<open>STACK_UNDERFLOW\<close> of the model, and the final read \<open>stack[top]\<close> from an
  empty stack is \<open>EMPTY_STACK\<close>.
\<close>

datatype build_error = STACK_UNDERFLOW | EMPTY_STACK

fun build_loop ::
    "char \<Rightarrow> item list \<Rightarrow> states_manager \<Rightarrow> t_nfa list
      \<Rightarrow> build_error + (states_manager \<times> t_nfa list)" where
  "build_loop EPSILON_SYMBOL [] manager stack = Inr (manager, stack)"
| "build_loop EPSILON_SYMBOL (current # rest) manager stack =
     (case itype current of
        OPERAND \<Rightarrow>
          (let (f, m) = symbol_nfa EPSILON_SYMBOL manager (ivalue current)
           in build_loop EPSILON_SYMBOL rest m (f # stack))
      | CONCATENATION \<Rightarrow>
          (case stack of
             b # a # stack' \<Rightarrow>
               (let (f, m) = concat_nfa EPSILON_SYMBOL manager a b
                in build_loop EPSILON_SYMBOL rest m (f # stack'))
           | _ \<Rightarrow> Inl STACK_UNDERFLOW)
      | ALTERNATION \<Rightarrow>
          (case stack of
             b # a # stack' \<Rightarrow>
               (let (f, m) = union_nfa EPSILON_SYMBOL manager a b
                in build_loop EPSILON_SYMBOL rest m (f # stack'))
           | _ \<Rightarrow> Inl STACK_UNDERFLOW)
      | KLEENE_STAR \<Rightarrow>
          (case stack of
             a # stack' \<Rightarrow>
               (let (f, m) = kleene_closure_nfa EPSILON_SYMBOL manager a
                in build_loop EPSILON_SYMBOL rest m (f # stack'))
           | _ \<Rightarrow> Inl STACK_UNDERFLOW)
      | POSITIVE_CLOSURE \<Rightarrow>
          (case stack of
             a # stack' \<Rightarrow>
               (let (f, m) = positive_closure_nfa EPSILON_SYMBOL manager a
                in build_loop EPSILON_SYMBOL rest m (f # stack'))
           | _ \<Rightarrow> Inl STACK_UNDERFLOW)
      | OPTIONAL \<Rightarrow>
          (case stack of
             a # stack' \<Rightarrow>
               (let (f, m) = optional_nfa EPSILON_SYMBOL manager a
                in build_loop EPSILON_SYMBOL rest m (f # stack'))
           | _ \<Rightarrow> Inl STACK_UNDERFLOW)
      | _ \<Rightarrow> build_loop EPSILON_SYMBOL rest manager stack)"

text \<open>The items \<open>r.items[0 .. r.size)\<close> that the loop of \<open>regex_to_nfa\<close> visits.\<close>

definition regex_items :: "regex \<Rightarrow> item list" where
  "regex_items r =
     (case items r of
        None \<Rightarrow> []
      | Some its \<Rightarrow> take (nat (rsize r)) its)"

subsection \<open>State sets\<close>

text \<open>
  \<open>__builtin_ctzll\<close>: the index of the lowest set bit. The C code calls it on non-zero
  words only (its result for 0 is undefined in C; the model gives 64).
\<close>

function ctzll :: "64 word \<Rightarrow> nat" where
  "ctzll w = (if w = 0 then 64 else if bit w 0 then 0 else Suc (ctzll (drop_bit 1 w)))"
  by pat_completeness auto
termination
proof (relation "measure unat")
  show "wf (measure (unat :: 64 word \<Rightarrow> nat))" by simp
next
  fix w :: "64 word"
  assume "w \<noteq> 0"
  then have "0 < unat w" by (simp add: unat_gt_0)
  then have "unat w div 2 < unat w" by simp
  then show "(drop_bit 1 w, w) \<in> measure unat"
    by (simp add: drop_bit_eq_div unat_div)
qed

declare ctzll.simps [simp del]

lemma drop_bit_nonzero:
  fixes w :: "64 word"
  assumes "w \<noteq> 0" and "\<not> bit w 0"
  shows "drop_bit 1 w \<noteq> 0"
proof
  assume z: "drop_bit 1 w = 0"
  have "bit w n = False" for n
  proof (cases n)
    case 0
    then show ?thesis using assms by simp
  next
    case (Suc m)
    have "bit (drop_bit 1 w) m = bit w (Suc m)" by (simp add: bit_drop_bit_eq)
    then show ?thesis using z Suc by simp
  qed
  then have "w = 0" by (simp add: bit_eq_iff)
  then show False using assms by simp
qed

lemma bit_ctzll: "w \<noteq> 0 \<Longrightarrow> bit w (ctzll w)"
proof (induction w rule: ctzll.induct)
  case (1 w)
  show ?case
  proof (cases "bit w 0")
    case True
    then show ?thesis using 1 by (subst ctzll.simps) simp
  next
    case False
    then have "drop_bit 1 w \<noteq> 0" using 1 drop_bit_nonzero by blast
    then have "bit (drop_bit 1 w) (ctzll (drop_bit 1 w))" using 1 False by blast
    then have "bit w (Suc (ctzll (drop_bit 1 w)))" by (simp add: bit_drop_bit_eq)
    then show ?thesis using 1 False by (subst ctzll.simps) simp
  qed
qed

lemma clear_bit_card:
  fixes w :: "64 word"
  assumes "bit w k"
  shows "card {n. bit (w AND NOT (push_bit k 1)) n} < card {n. bit w n}"
proof -
  have "{n. bit (w AND NOT (push_bit k 1)) n} \<subseteq> {n. bit w n} - {k}"
    by (auto simp: bit_simps)
  moreover have "{n. bit w n} - {k} \<subset> {n. bit w n}" using assms by auto
  ultimately have "{n. bit (w AND NOT (push_bit k 1)) n} \<subset> {n. bit w n}" by blast
  then show ?thesis by (intro psubset_card_mono) auto
qed

lemma clear_lowest_card:
  fixes w :: "64 word"
  assumes "w \<noteq> 0"
  shows "card {n. bit (w AND NOT (push_bit (ctzll w) 1)) n} < card {n. bit w n}"
  using assms by (intro clear_bit_card bit_ctzll)

lemma set_bit_card:
  fixes c :: "64 word"
  assumes "k < 64" and "c AND push_bit k 1 = 0"
  shows "card {n. n < 64 \<and> \<not> bit (c OR push_bit k 1) n} < card {n. n < 64 \<and> \<not> bit c n}"
proof -
  have "bit (c AND push_bit k 1) k = False" using assms(2) by simp
  then have nk: "\<not> bit c k" using assms(1) by (simp add: bit_simps)
  have "{n. n < 64 \<and> \<not> bit (c OR push_bit k 1) n} \<subseteq> {n. n < 64 \<and> \<not> bit c n} - {k}"
    using assms(1) by (auto simp: bit_simps)
  moreover have "{n. n < 64 \<and> \<not> bit c n} - {k} \<subset> {n. n < 64 \<and> \<not> bit c n}"
    using nk assms(1) by auto
  ultimately have "{n. n < 64 \<and> \<not> bit (c OR push_bit k 1) n} \<subset> {n. n < 64 \<and> \<not> bit c n}"
    by blast
  then show ?thesis by (intro psubset_card_mono) auto
qed

lemma ctzll_less:
  fixes w :: "64 word"
  assumes "w \<noteq> 0"
  shows "ctzll w < 64"
proof -
  have "bit w (ctzll w)" using assms by (rule bit_ctzll)
  then have "ctzll w < LENGTH(64)" by (rule bit_imp_le_length)
  then show ?thesis by simp
qed

subsection \<open>Automaton compiler\<close>

text \<open>
  The struct \<open>nfa\<close>; its fields \<open>states\<close>, \<open>alphabet\<close> and \<open>transitions\<close> are called
  \<open>nfa_states\<close>, \<open>nfa_alphabet\<close> and \<open>nfa_transitions\<close> here. The transition table
  is the list of its rows, each the list of its columns.
\<close>

record nfa =
  start_state :: nat
  nfa_states :: nat
  accept_states :: "64 word"
  nfa_alphabet :: alphabet
  nfa_transitions :: "64 word list list"
  epsilon_closures :: "64 word list"

text \<open>The loop of \<open>t_nfa_to_nfa\<close> that enters the recorded transitions into the table.\<close>

fun fill_table :: "alphabet \<Rightarrow> t_transition list \<Rightarrow> 64 word list list \<Rightarrow> 64 word list list" where
  "fill_table a [] tbl = tbl"
| "fill_table a (t # ts) tbl =
     (let col = nat (char_to_col a (symbol t));
          row = tbl ! from_state t
      in fill_table a ts
           (tbl[from_state t := row[col := (row ! col) OR push_bit (to_state t) 1]]))"

text \<open>
  The \<open>while (stack)\<close> loop of \<open>epsilon_closure\<close>. Each round either adds a state to
  the closure or removes one from the work set, so it ends.
\<close>

function closure_loop :: "64 word list list \<Rightarrow> nat \<Rightarrow> 64 word \<Rightarrow> 64 word \<Rightarrow> 64 word" where
  "closure_loop tbl epsilon_col closure stack =
     (if stack \<noteq> 0 then
        (let s = ctzll stack;
             stack1 = stack AND NOT (push_bit s 1)
         in if closure AND push_bit s 1 \<noteq> 0
            then closure_loop tbl epsilon_col closure stack1
            else closure_loop tbl epsilon_col (closure OR push_bit s 1)
                   (stack1 OR tbl ! s ! epsilon_col))
      else closure)"
  by pat_completeness auto
termination
proof (relation "measures
    [\<lambda>(tbl, epsilon_col, closure, stack). card {n. n < 64 \<and> \<not> bit closure n},
     \<lambda>(tbl, epsilon_col, closure, stack). card {n. bit stack n}]")
  show "wf (measures
    [\<lambda>(tbl :: 64 word list list, epsilon_col :: nat, closure :: 64 word, stack :: 64 word).
        card {n. n < 64 \<and> \<not> bit closure n},
     \<lambda>(tbl, epsilon_col, closure, stack). card {n. bit stack n}])"
    by simp
next
  fix tbl :: "64 word list list" and epsilon_col :: nat and closure stack :: "64 word"
    and x xa
  assume "stack \<noteq> 0" "x = ctzll stack" "xa = stack AND NOT (push_bit x 1)"
  then show "((tbl, epsilon_col, closure, xa), tbl, epsilon_col, closure, stack)
      \<in> measures
    [\<lambda>(tbl, epsilon_col, closure, stack). card {n. n < 64 \<and> \<not> bit closure n},
     \<lambda>(tbl, epsilon_col, closure, stack). card {n. bit stack n}]"
    using clear_lowest_card [of stack] by simp
next
  fix tbl :: "64 word list list" and epsilon_col :: nat and closure stack :: "64 word"
    and x xa
  assume "stack \<noteq> 0" "x = ctzll stack" "xa = stack AND NOT (push_bit x 1)"
    "\<not> closure AND push_bit x 1 \<noteq> 0"
  then show "((tbl, epsilon_col, closure OR push_bit x 1, xa OR tbl ! x ! epsilon_col),
       tbl, epsilon_col, closure, stack)
      \<in> measures
    [\<lambda>(tbl, epsilon_col, closure, stack). card {n. n < 64 \<and> \<not> bit closure n},
     \<lambda>(tbl, epsilon_col, closure, stack). card {n. bit stack n}]"
    using set_bit_card [of x closure] ctzll_less [of stack] by simp
qed

declare closure_loop.simps [simp del]

definition epsilon_closure :: "char \<Rightarrow> nfa \<Rightarrow> nat \<Rightarrow> nfa" where
  "epsilon_closure EPSILON_SYMBOL automaton state =
     (let epsilon_col = nat (char_to_col (nfa_alphabet automaton) EPSILON_SYMBOL);
          closure = closure_loop (nfa_transitions automaton) epsilon_col 0 (push_bit state 1)
      in automaton\<lparr>epsilon_closures := (epsilon_closures automaton)[state := closure]\<rparr>)"

definition calculate_epsilon_closure :: "char \<Rightarrow> nfa \<Rightarrow> nfa" where
  "calculate_epsilon_closure EPSILON_SYMBOL automaton =
     fold (\<lambda>i a. epsilon_closure EPSILON_SYMBOL a i) [0..<nfa_states automaton] automaton"

text \<open>
  \<open>t_nfa_to_nfa\<close>: the table has \<open>S\<close> zeroed rows of \<open>A\<close> columns; the closure array
  has \<open>S\<close> entries, each written by \<open>calculate_epsilon_closure\<close> before it is read.
\<close>

definition t_nfa_to_nfa :: "char \<Rightarrow> t_nfa \<Rightarrow> states_manager \<Rightarrow> nfa" where
  "t_nfa_to_nfa EPSILON_SYMBOL temp_nfa manager =
     (let S = states_count manager;
          A = symbol_count (manager_alphabet manager);
          automaton =
            \<lparr>start_state = t_start temp_nfa,
             nfa_states = S,
             accept_states = push_bit (t_end temp_nfa) 1,
             nfa_alphabet = manager_alphabet manager,
             nfa_transitions =
               fill_table (manager_alphabet manager) (transitions manager)
                 (replicate S (replicate A 0)),
             epsilon_closures = replicate S 0\<rparr>
      in calculate_epsilon_closure EPSILON_SYMBOL automaton)"

definition regex_to_nfa :: "char \<Rightarrow> regex \<Rightarrow> build_error + nfa" where
  "regex_to_nfa EPSILON_SYMBOL r =
     (case build_loop EPSILON_SYMBOL (regex_items r) (new_states_manager EPSILON_SYMBOL) [] of
        Inl e \<Rightarrow> Inl e
      | Inr (manager, stack) \<Rightarrow>
          (case stack of
             [] \<Rightarrow> Inl EMPTY_STACK
           | final_fragment # _ \<Rightarrow> Inr (t_nfa_to_nfa EPSILON_SYMBOL final_fragment manager)))"

subsection \<open>Matcher\<close>

text \<open>The first inner loop of \<open>match_nfa\<close>: the union of the rows of the current states.\<close>

function move_loop :: "64 word list list \<Rightarrow> nat \<Rightarrow> 64 word \<Rightarrow> 64 word \<Rightarrow> 64 word" where
  "move_loop tbl col tmp nxt =
     (if tmp \<noteq> 0 then
        (let s = ctzll tmp in
         move_loop tbl col (tmp AND NOT (push_bit s 1)) (nxt OR tbl ! s ! col))
      else nxt)"
  by pat_completeness auto
termination
proof (relation "measure (\<lambda>(tbl, col, tmp, nxt). card {n. bit tmp n})")
  show "wf (measure (\<lambda>(tbl :: 64 word list list, col :: nat, tmp :: 64 word, nxt :: 64 word).
      card {n. bit tmp n}))"
    by simp
next
  fix tbl :: "64 word list list" and col :: nat and tmp nxt :: "64 word" and x
  assume "tmp \<noteq> 0" "x = ctzll tmp"
  then show "((tbl, col, tmp AND NOT (push_bit x 1), nxt OR tbl ! x ! col), tbl, col, tmp, nxt)
      \<in> measure (\<lambda>(tbl, col, tmp, nxt). card {n. bit tmp n})"
    using clear_lowest_card [of tmp] by simp
qed

declare move_loop.simps [simp del]

text \<open>The second inner loop: the union of the closures of the states reached.\<close>

function expand_loop :: "64 word list \<Rightarrow> 64 word \<Rightarrow> 64 word \<Rightarrow> 64 word" where
  "expand_loop closures tmp expanded =
     (if tmp \<noteq> 0 then
        (let s = ctzll tmp in
         expand_loop closures (tmp AND NOT (push_bit s 1)) (expanded OR closures ! s))
      else expanded)"
  by pat_completeness auto
termination
proof (relation "measure (\<lambda>(closures, tmp, expanded). card {n. bit tmp n})")
  show "wf (measure (\<lambda>(closures :: 64 word list, tmp :: 64 word, expanded :: 64 word).
      card {n. bit tmp n}))"
    by simp
next
  fix closures :: "64 word list" and tmp expanded :: "64 word" and x
  assume "tmp \<noteq> 0" "x = ctzll tmp"
  then show "((closures, tmp AND NOT (push_bit x 1), expanded OR closures ! x),
      closures, tmp, expanded)
      \<in> measure (\<lambda>(closures, tmp, expanded). card {n. bit tmp n})"
    using clear_lowest_card [of tmp] by simp
qed

declare expand_loop.simps [simp del]

text \<open>The outer loop over the input, one character per step.\<close>

fun match_loop :: "nfa \<Rightarrow> 64 word \<Rightarrow> string \<Rightarrow> bool" where
  "match_loop automaton current [] = (current AND accept_states automaton \<noteq> 0)"
| "match_loop automaton current (c # input) =
     (let col = char_to_col (nfa_alphabet automaton) c in
      if col = - 1 then False
      else
        (let nxt = move_loop (nfa_transitions automaton) (nat col) current 0;
             expanded = expand_loop (epsilon_closures automaton) nxt 0
         in if expanded = 0 then False
            else match_loop automaton expanded input))"

definition match_nfa :: "nfa \<Rightarrow> string \<Rightarrow> nat \<Rightarrow> bool" where
  "match_nfa automaton input input_length =
     match_loop automaton (epsilon_closures automaton ! start_state automaton)
       (take input_length input)"

subsection \<open>The two public operations of the specification\<close>

text \<open>
  \<open>compile\<close> runs the parser and the builder as main.c does
  (\<open>regex_to_nfa(parse_regex(regex_str))\<close>), and \<open>matches\<close> calls the matcher on a whole
  string (\<open>match_nfa(n, buf, strlen(buf))\<close>).
\<close>

definition compile :: "char \<Rightarrow> string \<Rightarrow> build_error + nfa" where
  "compile EPSILON_SYMBOL pattern = regex_to_nfa EPSILON_SYMBOL (parse_regex (Some pattern))"

definition matches :: "build_error + nfa \<Rightarrow> string \<Rightarrow> bool option" where
  "matches a input =
     (case a of
        Inl e \<Rightarrow> None
      | Inr automaton \<Rightarrow> Some (match_nfa automaton input (length input)))"

section \<open>Definitions that follow the specification\<close>

text \<open>Following the words of the specification: one token per character, an escape
  symbol and the character after it give one literal token, and an escape symbol at the
  end of the string is a literal escape character.\<close>

fun tokenize_spec :: "string \<Rightarrow> item list" where
  "tokenize_spec [] = []"
| "tokenize_spec [c] =
     (if c = ESCAPE_SYMBOL then [\<lparr>ivalue = ESCAPE_SYMBOL, itype = OPERAND\<rparr>]
      else [\<lparr>ivalue = c, itype = get_item_type c\<rparr>])"
| "tokenize_spec (c # d # rest) =
     (if c = ESCAPE_SYMBOL then \<lparr>ivalue = d, itype = OPERAND\<rparr> # tokenize_spec rest
      else \<lparr>ivalue = c, itype = get_item_type c\<rparr> # tokenize_spec (d # rest))"

text \<open>Following the words of the specification: the left token can end a
  sub-expression, the right token can begin one.\<close>

definition can_end :: "item \<Rightarrow> bool" where
  "can_end l = (itype l \<in> {OPERAND, R_PARENTHESIS, KLEENE_STAR, POSITIVE_CLOSURE, OPTIONAL})"

definition can_begin :: "item \<Rightarrow> bool" where
  "can_begin r = (itype r \<in> {OPERAND, L_PARENTHESIS})"

fun expand_spec :: "item list \<Rightarrow> item list" where
  "expand_spec [] = []"
| "expand_spec [x] = [x]"
| "expand_spec (l # r # rest) =
     (if can_end l \<and> can_begin r
      then l # \<lparr>ivalue = CHR ''.'', itype = CONCATENATION\<rparr> # expand_spec (r # rest)
      else l # expand_spec (r # rest))"

text \<open>Whether a string ends in an escape symbol that is still waiting for the
  character it escapes.\<close>

fun escape_pending :: "string \<Rightarrow> bool" where
  "escape_pending [] = False"
| "escape_pending [c] = (c = ESCAPE_SYMBOL)"
| "escape_pending (c # d # rest) =
     (if c = ESCAPE_SYMBOL then escape_pending rest else escape_pending (d # rest))"

text \<open>The distinct elements of a list in the order of their first occurrence, after
  the elements already seen.\<close>

fun first_seen :: "'a list \<Rightarrow> 'a list \<Rightarrow> 'a list" where
  "first_seen seen [] = seen"
| "first_seen seen (x # xs) = first_seen (if x \<in> set seen then seen else seen @ [x]) xs"

text \<open>The position of a symbol in the list of symbols, \<open>- 1\<close> when it is absent.\<close>

fun column_of :: "char list \<Rightarrow> char \<Rightarrow> int" where
  "column_of [] c = - 1"
| "column_of (x # xs) c =
     (if x = c then 0
      else (let k = column_of xs c in if k = - 1 then - 1 else k + 1))"

text \<open>The two operations through which nfa.c changes a states manager.\<close>

datatype manager_op = NEW_STATE | ADD_TRANSITION nat char nat

fun apply_op :: "char \<Rightarrow> states_manager \<Rightarrow> manager_op \<Rightarrow> states_manager" where
  "apply_op EPSILON_SYMBOL m NEW_STATE = snd (new_state m)"
| "apply_op EPSILON_SYMBOL m (ADD_TRANSITION f s t) = add_transition EPSILON_SYMBOL m f s t"

definition run_ops :: "char \<Rightarrow> manager_op list \<Rightarrow> states_manager" where
  "run_ops EPSILON_SYMBOL ops =
     foldl (apply_op EPSILON_SYMBOL) (new_states_manager EPSILON_SYMBOL) ops"

definition alphabet_ok :: "char \<Rightarrow> states_manager \<Rightarrow> bool" where
  "alphabet_ok EPSILON_SYMBOL m =
     (let a = manager_alphabet m in
      symbols a = first_seen [EPSILON_SYMBOL] (map symbol (transitions m)) \<and>
      symbol_count a = length (symbols a) \<and>
      (\<forall>c. char_to_col a c = column_of (symbols a) c))"

text \<open>What the specification says of the alphabet of a states manager: epsilon in
  column 0; the symbols in first-seen order, without repetition; every symbol of a
  recorded transition in its own column; and the table and the symbol list inverse to
  each other.\<close>

definition alphabet_facts :: "char \<Rightarrow> states_manager \<Rightarrow> bool" where
  "alphabet_facts EPSILON_SYMBOL m =
     (let a = manager_alphabet m in
      char_to_col a EPSILON_SYMBOL = 0 \<and>
      symbols a ! 0 = EPSILON_SYMBOL \<and>
      symbols a = first_seen [EPSILON_SYMBOL] (map symbol (transitions m)) \<and>
      symbol_count a = length (symbols a) \<and>
      distinct (symbols a) \<and>
      (\<forall>t \<in> set (transitions m).
          0 \<le> char_to_col a (symbol t) \<and>
          nat (char_to_col a (symbol t)) < symbol_count a \<and>
          symbols a ! nat (char_to_col a (symbol t)) = symbol t) \<and>
      (\<forall>c. (char_to_col a c = - 1) = (c \<notin> set (symbols a))) \<and>
      (\<forall>c. c \<in> set (symbols a) \<longrightarrow>
          0 \<le> char_to_col a c \<and> nat (char_to_col a c) < symbol_count a \<and>
          symbols a ! nat (char_to_col a c) = c) \<and>
      (\<forall>i < symbol_count a. char_to_col a (symbols a ! i) = int i) \<and>
      add_symbol EPSILON_SYMBOL a EPSILON_SYMBOL = a \<and>
      (\<forall>s. char_to_col a s \<noteq> - 1 \<longrightarrow> add_symbol EPSILON_SYMBOL a s = a))"

text \<open>The height of the fragment stack of \<open>regex_to_nfa\<close> after a sequence of items,
  from the height \<open>k\<close>; \<open>None\<close> where an operator finds too few fragments.\<close>

fun fragments_after :: "item list \<Rightarrow> nat \<Rightarrow> nat option" where
  "fragments_after [] k = Some k"
| "fragments_after (x # xs) k =
     (case itype x of
        OPERAND \<Rightarrow> fragments_after xs (k + 1)
      | CONCATENATION \<Rightarrow> if 2 \<le> k then fragments_after xs (k - 1) else None
      | ALTERNATION \<Rightarrow> if 2 \<le> k then fragments_after xs (k - 1) else None
      | KLEENE_STAR \<Rightarrow> if 1 \<le> k then fragments_after xs k else None
      | POSITIVE_CLOSURE \<Rightarrow> if 1 \<le> k then fragments_after xs k else None
      | OPTIONAL \<Rightarrow> if 1 \<le> k then fragments_after xs k else None
      | _ \<Rightarrow> fragments_after xs k)"

text \<open>An infix token sequence in which every operator has its operands: a literal or
  an opening parenthesis stands at the start, after a binary operator or after an
  opening parenthesis; an operator or a closing parenthesis stands after a literal, a
  closing parenthesis or a unary operator; and the sequence ends where an operator could
  follow. The flag says whether an operand has just been completed.\<close>

fun operands_in_place :: "bool \<Rightarrow> item list \<Rightarrow> bool" where
  "operands_in_place ready [] = ready"
| "operands_in_place ready (x # xs) =
     (case itype x of
        OPERAND \<Rightarrow> \<not> ready \<and> operands_in_place True xs
      | L_PARENTHESIS \<Rightarrow> \<not> ready \<and> operands_in_place False xs
      | R_PARENTHESIS \<Rightarrow> ready \<and> operands_in_place True xs
      | CONCATENATION \<Rightarrow> ready \<and> operands_in_place False xs
      | ALTERNATION \<Rightarrow> ready \<and> operands_in_place False xs
      | _ \<Rightarrow> ready \<and> operands_in_place True xs)"

definition well_formed :: "string \<Rightarrow> bool" where
  "well_formed pattern = operands_in_place False (expand_spec (tokenize_spec pattern))"

definition is_binary :: "item \<Rightarrow> bool" where
  "is_binary t = (itype t = CONCATENATION \<or> itype t = ALTERNATION)"

definition binary_count :: "item list \<Rightarrow> nat" where
  "binary_count stack = length (filter is_binary stack)"

definition operators_only :: "item list \<Rightarrow> bool" where
  "operators_only stack = (\<forall>t \<in> set stack. itype t \<noteq> OPERAND \<and> itype t \<noteq> R_PARENTHESIS)"

text \<open>What an item adds to the number of fragments: a literal adds one, a binary
  operator takes one away.\<close>

definition token_weight :: "item \<Rightarrow> int" where
  "token_weight t =
     (case itype t of
        OPERAND \<Rightarrow> 1
      | CONCATENATION \<Rightarrow> - 1
      | ALTERNATION \<Rightarrow> - 1
      | _ \<Rightarrow> 0)"

definition weight :: "item list \<Rightarrow> int" where
  "weight xs = sum_list (map token_weight xs)"

text \<open>No neighbours that the concatenation expander would have separated.\<close>

fun no_implicit_concat :: "item list \<Rightarrow> bool" where
  "no_implicit_concat [] = True"
| "no_implicit_concat [x] = True"
| "no_implicit_concat (l # r # rest) =
     (\<not> (can_end l \<and> can_begin r) \<and> no_implicit_concat (r # rest))"

section \<open>Properties of the parser\<close>

lemmas front_end_defs =
  parse_regex_def itemize_regex_def itemize_loop.simps
  implicit_to_explicit_concatenation_def concat_loop.simps shunting_yard_def
  new_item_def get_item_type_def symbol_defs should_insert_concat_def

lemma pop_to_paren_no_paren:
  "L_PARENTHESIS \<notin> itype ` set stack \<Longrightarrow> fst (pop_to_paren stack out) = []"
  by (induction stack arbitrary: out) auto

lemma pop_rest_paren:
  "L_PARENTHESIS \<in> itype ` set stack \<Longrightarrow> pop_rest stack out = None"
  by (induction stack arbitrary: out) auto

lemma sy_loop_unmatched_close:
  assumes "itype current = R_PARENTHESIS" and "L_PARENTHESIS \<notin> itype ` set stack"
  shows "sy_loop (current # rest) stack output = None"
proof -
  have "fst (pop_to_paren stack output) = []"
    using assms(2) by (rule pop_to_paren_no_paren)
  then show ?thesis using assms(1) by (cases "pop_to_paren stack output") simp
qed

text \<open>
  Claim C2. \<open>parse_regex(")")\<close> and \<open>parse_regex("(a")\<close> return the empty regex. In
  general the shunting-yard loop fails at a closing parenthesis when no opening
  parenthesis is on the stack, and at the end of the input when an opening parenthesis is
  still on the stack; and when \<open>shunting_yard\<close> fails, \<open>parse_regex\<close> returns the empty
  regex, so no part of the postfix sequence is handed out.
\<close>

theorem unbalanced_grouping_rejected:
  "parse_regex (Some '')'') = empty_regex \<and>
   parse_regex (Some ''(a'') = empty_regex \<and>
   (\<forall>current rest stack output.
      itype current = R_PARENTHESIS \<and> L_PARENTHESIS \<notin> itype ` set stack
        \<longrightarrow> sy_loop (current # rest) stack output = None) \<and>
   (\<forall>stack output.
      L_PARENTHESIS \<in> itype ` set stack \<longrightarrow> sy_loop [] stack output = None) \<and>
   (\<forall>pattern step2.
      implicit_to_explicit_concatenation (itemize_regex (Some pattern))
          (int (length (itemize_loop pattern 0 []))) = Some step2 \<and>
      shunting_yard (Some step2) (int (length step2)) = None
        \<longrightarrow> parse_regex (Some pattern) = empty_regex)"
proof (intro conjI allI impI)
  show "parse_regex (Some '')'') = empty_regex"
    by (simp add: front_end_defs)
  show "parse_regex (Some ''(a'') = empty_regex"
    by (simp add: front_end_defs)
next
  fix current :: item and rest stack out :: "item list"
  assume "itype current = R_PARENTHESIS \<and> L_PARENTHESIS \<notin> itype ` set stack"
  then show "sy_loop (current # rest) stack out = None"
    using sy_loop_unmatched_close by blast
next
  fix stack out :: "item list"
  assume "L_PARENTHESIS \<in> itype ` set stack"
  then show "sy_loop [] stack out = None"
    by (simp add: pop_rest_paren)
next
  fix pattern step2
  assume "implicit_to_explicit_concatenation (itemize_regex (Some pattern))
          (int (length (itemize_loop pattern 0 []))) = Some step2 \<and>
      shunting_yard (Some step2) (int (length step2)) = None"
  then show "parse_regex (Some pattern) = empty_regex"
    by (simp add: parse_regex_def itemize_regex_def)
qed

theorem unbalanced_grouping_rejected_witness:
  "sy_loop [new_item (CHR '')'') R_PARENTHESIS] [] [] = None \<and>
   sy_loop [] [new_item (CHR ''('') L_PARENTHESIS] [new_item (CHR ''a'') OPERAND] = None \<and>
   parse_regex (Some ''(a'') = empty_regex"
proof -
  have a: "itype (new_item (CHR '')'') R_PARENTHESIS) = R_PARENTHESIS \<and>
      L_PARENTHESIS \<notin> itype ` set ([] :: item list)"
    by (simp add: new_item_def)
  have b: "L_PARENTHESIS \<in> itype ` set [new_item (CHR ''('') L_PARENTHESIS]"
    by (simp add: new_item_def)
  show ?thesis
    using unbalanced_grouping_rejected a b by blast
qed

text \<open>
  Claim C10. \<open>parse_regex\<close> on the empty string returns the empty regex (null items,
  size 0), the same result as for a null pattern. The tokenizer itself accepts the empty
  string and returns no items; it is the concatenation expander that rejects the size 0.
\<close>

theorem empty_pattern_rejected:
  "parse_regex (Some []) = empty_regex \<and>
   parse_regex (Some []) = parse_regex None \<and>
   items (parse_regex (Some [])) = None \<and>
   rsize (parse_regex (Some [])) = 0 \<and>
   itemize_regex (Some []) = Some [] \<and>
   implicit_to_explicit_concatenation (Some []) 0 = None"
  by (simp add: parse_regex_def itemize_regex_def itemize_loop.simps
      implicit_to_explicit_concatenation_def empty_regex_def)

section \<open>Properties of the tokenizer and the concatenation expander\<close>

lemma itemize_loop_spec:
  "i \<le> length s \<Longrightarrow> itemize_loop s i acc = acc @ tokenize_spec (drop i s)"
proof (induction s i acc rule: itemize_loop.induct)
  case (1 s i acc)
  show ?case
  proof (cases "i < length s")
    case False
    then show ?thesis using 1 by (simp add: itemize_loop.simps)
  next
    case True
    note lt = True
    show ?thesis
    proof (cases "s ! i = ESCAPE_SYMBOL \<and> i + 1 < length s")
      case True
      then have d: "drop i s = s ! i # s ! (i + 1) # drop (i + 2) s"
        using lt by (metis Cons_nth_drop_Suc Suc_eq_plus1 add_2_eq_Suc')
      have "itemize_loop s i acc =
          itemize_loop s (i + 2) (acc @ [new_item (s ! (i + 1)) OPERAND])"
        using lt True by (subst itemize_loop.simps) simp
      also have "\<dots> = (acc @ [new_item (s ! (i + 1)) OPERAND]) @ tokenize_spec (drop (i + 2) s)"
        using "1.IH"(1) [OF lt refl True] True by simp
      finally show ?thesis using True d by (simp add: new_item_def)
    next
      case False
      have d: "drop i s = s ! i # drop (i + 1) s"
        using lt by (simp add: Cons_nth_drop_Suc)
      have "itemize_loop s i acc =
          itemize_loop s (i + 1) (acc @ [new_item (s ! i) (get_item_type (s ! i))])"
        using lt False by (subst itemize_loop.simps) (auto simp: Let_def)
      also have "\<dots> = (acc @ [new_item (s ! i) (get_item_type (s ! i))])
          @ tokenize_spec (drop (i + 1) s)"
        using "1.IH"(2) [OF lt refl False] lt by simp
      finally have eq: "itemize_loop s i acc =
          acc @ new_item (s ! i) (get_item_type (s ! i)) # tokenize_spec (drop (i + 1) s)"
        by simp
      show ?thesis
      proof (cases "drop (i + 1) s")
        case Nil
        then show ?thesis using eq d
          by (simp add: new_item_def get_item_type_def symbol_defs)
      next
        case (Cons x xs)
        then have "i + 1 < length s" by (metis drop_eq_Nil2 list.distinct(1) not_le)
        then have "s ! i \<noteq> ESCAPE_SYMBOL" using False by simp
        then show ?thesis using eq d Cons by (simp add: new_item_def)
      qed
    qed
  qed
qed

lemma itemize_regex_spec: "itemize_regex (Some s) = Some (tokenize_spec s)"
  by (simp add: itemize_regex_def itemize_loop_spec)

lemma should_insert_concat_spec:
  "should_insert_concat l r = (can_end l \<and> can_begin r)"
  by (auto simp: should_insert_concat_def can_end_def can_begin_def)

lemma concat_loop_spec:
  "i \<le> length xs \<Longrightarrow> concat_loop xs (length xs) i acc = acc @ expand_spec (drop i xs)"
proof (induction "length xs - i" arbitrary: i acc)
  case 0
  then show ?case by (simp add: concat_loop.simps)
next
  case (Suc n)
  then have lt: "i < length xs" by simp
  have d: "drop i xs = xs ! i # drop (i + 1) xs"
    using lt by (simp add: Cons_nth_drop_Suc)
  have ih: "concat_loop xs (length xs) (i + 1) acc' = acc' @ expand_spec (drop (i + 1) xs)" for acc'
    using Suc.hyps(1) [of "i + 1" acc'] Suc.hyps(2) lt by simp
  show ?case
  proof (cases "i < length xs - 1")
    case False
    then have "drop (i + 1) xs = []" using lt by simp
    then show ?thesis using lt False d ih
      by (subst concat_loop.simps) (simp add: Let_def)
  next
    case True
    then have d2: "drop (i + 1) xs = xs ! (i + 1) # drop (i + 2) xs"
      by (metis Cons_nth_drop_Suc Suc_eq_plus1 add_2_eq_Suc' less_diff_conv)
    show ?thesis using lt True d d2 ih
      by (subst concat_loop.simps)
        (simp add: Let_def should_insert_concat_spec new_item_def CONCAT_SYMBOL_def)
  qed
qed

lemma subseq_expand_spec: "subseq xs (expand_spec xs)"
proof (induction xs rule: expand_spec.induct)
  case (3 l r rest)
  have ih: "subseq (r # rest) (expand_spec (r # rest))"
    using 3 by (cases "can_end l \<and> can_begin r") simp_all
  then have "subseq (r # rest)
      (\<lparr>ivalue = CHR ''.'', itype = CONCATENATION\<rparr> # expand_spec (r # rest))"
    by (rule list_emb_Cons)
  then have a: "subseq (l # r # rest)
      (l # \<lparr>ivalue = CHR ''.'', itype = CONCATENATION\<rparr> # expand_spec (r # rest))"
    by (rule subseq_Cons2)
  have b: "subseq (l # r # rest) (l # expand_spec (r # rest))"
    using ih by (rule subseq_Cons2)
  show ?case
  proof (cases "can_end l \<and> can_begin r")
    case True
    then have "expand_spec (l # r # rest) =
        l # \<lparr>ivalue = CHR ''.'', itype = CONCATENATION\<rparr> # expand_spec (r # rest)"
      by simp
    then show ?thesis using a by metis
  next
    case False
    then have "expand_spec (l # r # rest) = l # expand_spec (r # rest)"
      by auto
    then show ?thesis using b by metis
  qed
qed simp_all

lemma tokenize_spec_Nil_iff: "tokenize_spec s = [] \<longleftrightarrow> s = []"
  by (cases s rule: tokenize_spec.cases) auto

lemma expand_spec_Nil_iff: "expand_spec xs = [] \<longleftrightarrow> xs = []"
  by (cases xs rule: expand_spec.cases) auto

text \<open>The parser in terms of the two specification functions and the shunting-yard
  loop.\<close>

lemma parse_regex_spec:
  "parse_regex (Some s) =
     (case (if s = [] then None else sy_loop (expand_spec (tokenize_spec s)) [] []) of
        None \<Rightarrow> empty_regex
      | Some postfix \<Rightarrow> \<lparr>items = Some postfix, rsize = int (length postfix)\<rparr>)"
proof (cases "s = []")
  case True
  then show ?thesis
    by (simp add: parse_regex_def itemize_regex_spec implicit_to_explicit_concatenation_def)
next
  case False
  have c: "concat_loop (tokenize_spec s) (length (tokenize_spec s)) 0 [] =
      expand_spec (tokenize_spec s)"
    using concat_loop_spec [of 0 "tokenize_spec s" "[]"] by simp
  show ?thesis
    using False c
    by (simp add: parse_regex_def itemize_regex_spec implicit_to_explicit_concatenation_def
        shunting_yard_def tokenize_spec_Nil_iff expand_spec_Nil_iff)
qed

text \<open>
  Claim C7. On a non-empty token sequence the concatenation expander returns the
  sequence of the specification: a concatenation token between two neighbours exactly
  when the left one is a literal, a closing parenthesis or a unary postfix operator and
  the right one is a literal or an opening parenthesis, and nothing else. The tokens of
  the input are kept, in their order. (The empty sequence is rejected.)
\<close>

theorem concatenation_expander_spec:
  "implicit_to_explicit_concatenation (Some xs) (int (length xs)) =
     (if xs = [] then None else Some (expand_spec xs)) \<and>
   subseq xs (expand_spec xs) \<and>
   should_insert_concat l r =
     (itype l \<in> {OPERAND, R_PARENTHESIS, KLEENE_STAR, POSITIVE_CLOSURE, OPTIONAL} \<and>
      itype r \<in> {OPERAND, L_PARENTHESIS})"
proof -
  have "concat_loop xs (length xs) 0 [] = expand_spec xs"
    using concat_loop_spec [of 0 xs "[]"] by simp
  then have "implicit_to_explicit_concatenation (Some xs) (int (length xs)) =
      (if xs = [] then None else Some (expand_spec xs))"
    by (simp add: implicit_to_explicit_concatenation_def)
  moreover have "should_insert_concat l r =
     (itype l \<in> {OPERAND, R_PARENTHESIS, KLEENE_STAR, POSITIVE_CLOSURE, OPTIONAL} \<and>
      itype r \<in> {OPERAND, L_PARENTHESIS})"
    by (simp add: should_insert_concat_spec can_end_def can_begin_def)
  ultimately show ?thesis using subseq_expand_spec by blast
qed

theorem concatenation_expander_spec_witness:
  "implicit_to_explicit_concatenation
     (Some [new_item (CHR ''a'') OPERAND, new_item (CHR ''('') L_PARENTHESIS,
            new_item (CHR ''b'') OPERAND, new_item (CHR '')'') R_PARENTHESIS,
            new_item (CHR ''*'') KLEENE_STAR, new_item (CHR ''|'') ALTERNATION,
            new_item (CHR ''c'') OPERAND]) 7 =
   Some [new_item (CHR ''a'') OPERAND, new_item (CHR ''.'') CONCATENATION,
         new_item (CHR ''('') L_PARENTHESIS,
         new_item (CHR ''b'') OPERAND, new_item (CHR '')'') R_PARENTHESIS,
         new_item (CHR ''*'') KLEENE_STAR, new_item (CHR ''|'') ALTERNATION,
         new_item (CHR ''c'') OPERAND]"
  using concatenation_expander_spec
    [of "[new_item (CHR ''a'') OPERAND, new_item (CHR ''('') L_PARENTHESIS,
          new_item (CHR ''b'') OPERAND, new_item (CHR '')'') R_PARENTHESIS,
          new_item (CHR ''*'') KLEENE_STAR, new_item (CHR ''|'') ALTERNATION,
          new_item (CHR ''c'') OPERAND]"]
  by (simp add: new_item_def can_end_def can_begin_def)

section \<open>Properties of the matcher\<close>

text \<open>The equations that evaluate the pipeline on a given pattern and input.\<close>

lemmas eval_defs =
  parse_regex_spec can_end_def can_begin_def get_item_type_def symbol_defs empty_regex_def
  regex_items_def new_states_manager_def new_alphabet_def
  symbol_nfa_def concat_nfa_def union_nfa_def positive_closure_nfa_def
  kleene_closure_nfa_def optional_nfa_def new_state_def add_transition_def add_symbol_def
  compile_def regex_to_nfa_def t_nfa_to_nfa_def calculate_epsilon_closure_def
  epsilon_closure_def closure_loop.simps ctzll.simps upt_rec
  matches_def match_nfa_def move_loop.simps expand_loop.simps

text \<open>
  Claim C4. The examples of the specification for a literal, the two closures and the
  alternation, for any epsilon symbol other than the characters used.
\<close>

theorem literal_closure_alternation_examples:
  assumes "EPSILON_SYMBOL \<notin> set ''abc''"
  shows "matches (compile EPSILON_SYMBOL ''a'') ''a'' = Some True \<and>
         matches (compile EPSILON_SYMBOL ''a'') ''b'' = Some False \<and>
         matches (compile EPSILON_SYMBOL ''a'') [] = Some False \<and>
         matches (compile EPSILON_SYMBOL ''a*'') [] = Some True \<and>
         matches (compile EPSILON_SYMBOL ''a*'') ''aaaa'' = Some True \<and>
         matches (compile EPSILON_SYMBOL ''a+'') [] = Some False \<and>
         matches (compile EPSILON_SYMBOL ''a+'') ''a'' = Some True \<and>
         matches (compile EPSILON_SYMBOL ''a|b'') ''a'' = Some True \<and>
         matches (compile EPSILON_SYMBOL ''a|b'') ''c'' = Some False"
proof -
  have ne: "CHR ''a'' \<noteq> EPSILON_SYMBOL" "CHR ''b'' \<noteq> EPSILON_SYMBOL"
      "CHR ''c'' \<noteq> EPSILON_SYMBOL"
    using assms by auto
  have 1: "matches (compile EPSILON_SYMBOL ''a'') ''a'' = Some True"
    using ne by (simp add: eval_defs cong: let_weak_cong prod.case_cong_weak)
  have 2: "matches (compile EPSILON_SYMBOL ''a'') ''b'' = Some False"
    using ne by (simp add: eval_defs cong: let_weak_cong prod.case_cong_weak)
  have 3: "matches (compile EPSILON_SYMBOL ''a'') [] = Some False"
    using ne by (simp add: eval_defs cong: let_weak_cong prod.case_cong_weak)
  have 4: "matches (compile EPSILON_SYMBOL ''a*'') [] = Some True"
    using ne by (simp add: eval_defs cong: let_weak_cong prod.case_cong_weak)
  have 5: "matches (compile EPSILON_SYMBOL ''a*'') ''aaaa'' = Some True"
    using ne by (simp add: eval_defs cong: let_weak_cong prod.case_cong_weak)
  have 6: "matches (compile EPSILON_SYMBOL ''a+'') [] = Some False"
    using ne by (simp add: eval_defs cong: let_weak_cong prod.case_cong_weak)
  have 7: "matches (compile EPSILON_SYMBOL ''a+'') ''a'' = Some True"
    using ne by (simp add: eval_defs cong: let_weak_cong prod.case_cong_weak)
  have 8: "matches (compile EPSILON_SYMBOL ''a|b'') ''a'' = Some True"
    using ne by (simp add: eval_defs cong: let_weak_cong prod.case_cong_weak)
  have 9: "matches (compile EPSILON_SYMBOL ''a|b'') ''c'' = Some False"
    using ne by (simp add: eval_defs cong: let_weak_cong prod.case_cong_weak)
  show ?thesis using 1 2 3 4 5 6 7 8 9 by blast
qed

theorem literal_closure_alternation_examples_witness:
  "matches (compile (CHR 0x00) ''a'') ''a'' = Some True \<and>
   matches (compile (CHR 0x00) ''a+'') [] = Some False \<and>
   matches (compile (CHR 0x00) ''a|b'') ''c'' = Some False"
proof -
  have "CHR 0x00 \<notin> set ''abc''" by simp
  from literal_closure_alternation_examples [OF this] show ?thesis by blast
qed

lemma match_loop_unknown_symbol:
  assumes "c \<in> set input" and "char_to_col (nfa_alphabet automaton) c = - 1"
  shows "\<not> match_loop automaton current input"
  using assms
proof (induction input arbitrary: current)
  case Nil
  then show ?case by simp
next
  case (Cons x xs)
  show ?case
  proof (cases "char_to_col (nfa_alphabet automaton) x = - 1")
    case True
    then show ?thesis by simp
  next
    case False
    then have "c \<in> set xs" using Cons.prems by auto
    then have "\<not> match_loop automaton cur xs" for cur
      using Cons.IH Cons.prems(2) by blast
    then show ?thesis by (simp add: Let_def)
  qed
qed

text \<open>
  Claim C6. When the input holds a character that has no column in the alphabet of the
  automaton, \<open>match_nfa\<close> returns false: an ordinary result of the matcher, for every
  automaton, whatever stands before or after that character. At the character itself
  the loop returns false at once.
\<close>

theorem unknown_symbol_rejected:
  assumes "c \<in> set input" and "char_to_col (nfa_alphabet automaton) c = - 1"
  shows "match_nfa automaton input (length input) = False \<and>
         matches (Inr automaton) input = Some False \<and>
         match_loop automaton current (c # rest) = False"
  using assms match_loop_unknown_symbol [OF assms]
  by (simp add: match_nfa_def matches_def)

theorem unknown_symbol_rejected_witness:
  "\<exists>automaton.
     compile (CHR 0x00) ''ab'' = Inr automaton \<and>
     char_to_col (nfa_alphabet automaton) (CHR ''z'') = - 1 \<and>
     matches (Inr automaton) ''azb'' = Some False"
proof -
  obtain automaton where a: "compile (CHR 0x00) ''ab'' = Inr automaton"
      and b: "char_to_col (nfa_alphabet automaton) (CHR ''z'') = - 1"
    by (simp add: eval_defs cong: let_weak_cong prod.case_cong_weak)
  have "CHR ''z'' \<in> set ''azb''" by simp
  from unknown_symbol_rejected [OF this b] a b show ?thesis by blast
qed

section \<open>Escapes and the concatenation symbol\<close>

lemma tokenize_spec_append:
  "\<not> escape_pending u \<Longrightarrow> tokenize_spec (u @ v) = tokenize_spec u @ tokenize_spec v"
proof (induction u rule: tokenize_spec.induct)
  case 1
  then show ?case by simp
next
  case (2 c)
  then show ?case by (cases v) simp_all
next
  case (3 c d rest)
  then show ?case by (simp split: if_splits)
qed

lemma tokenize_spec_append_pending:
  "escape_pending u \<Longrightarrow>
     tokenize_spec (u @ c # v) =
       butlast (tokenize_spec u) @ \<lparr>ivalue = c, itype = OPERAND\<rparr> # tokenize_spec v"
proof (induction u rule: tokenize_spec.induct)
  case 1
  then show ?case by simp
next
  case (2 x)
  then show ?case by simp
next
  case (3 x d rest)
  have ne: "tokenize_spec rest \<noteq> []" if "escape_pending rest"
    using that by (cases rest rule: tokenize_spec.cases) auto
  have ne2: "tokenize_spec (d # rest) \<noteq> []"
    by (cases rest) auto
  show ?case
  proof (cases "x = ESCAPE_SYMBOL")
    case True
    then show ?thesis using 3 ne by simp
  next
    case False
    then show ?thesis using 3 ne2 by simp
  qed
qed

text \<open>
  Claim C5. For every string the tokenizer returns the token sequence of the
  specification: one token per character, one literal token for an escape symbol and
  the character after it, and a literal escape character for an escape symbol at the
  end. So the pattern \<open>a\*\<close> (three characters) accepts \<open>a*\<close> and rejects \<open>aa\<close>.
\<close>

theorem tokenizer_spec:
  assumes "EPSILON_SYMBOL \<notin> set ''a*''"
  shows "itemize_regex (Some s) = Some (tokenize_spec s) \<and>
         itemize_regex (Some (s @ [ESCAPE_SYMBOL, c])) =
           Some (if escape_pending s
                 then butlast (tokenize_spec s) @
                      [\<lparr>ivalue = ESCAPE_SYMBOL, itype = OPERAND\<rparr>,
                       \<lparr>ivalue = c, itype = get_item_type c\<rparr>]
                 else tokenize_spec s @ [\<lparr>ivalue = c, itype = OPERAND\<rparr>]) \<and>
         matches (compile EPSILON_SYMBOL [CHR ''a'', ESCAPE_SYMBOL, CHR ''*'']) ''a*'' = Some True \<and>
         matches (compile EPSILON_SYMBOL [CHR ''a'', ESCAPE_SYMBOL, CHR ''*'']) ''aa'' = Some False"
proof -
  have ne: "CHR ''a'' \<noteq> EPSILON_SYMBOL" "CHR ''*'' \<noteq> EPSILON_SYMBOL"
    using assms by auto
  have 1: "itemize_regex (Some s) = Some (tokenize_spec s)" for s
    by (rule itemize_regex_spec)
  have 2: "tokenize_spec (s @ [ESCAPE_SYMBOL, c]) =
      (if escape_pending s
       then butlast (tokenize_spec s) @
            [\<lparr>ivalue = ESCAPE_SYMBOL, itype = OPERAND\<rparr>,
             \<lparr>ivalue = c, itype = get_item_type c\<rparr>]
       else tokenize_spec s @ [\<lparr>ivalue = c, itype = OPERAND\<rparr>])"
    by (simp add: tokenize_spec_append tokenize_spec_append_pending
        get_item_type_def symbol_defs)
  have 3: "matches (compile EPSILON_SYMBOL [CHR ''a'', ESCAPE_SYMBOL, CHR ''*'']) ''a*''
      = Some True"
    using ne by (simp add: eval_defs cong: let_weak_cong prod.case_cong_weak)
  have 4: "matches (compile EPSILON_SYMBOL [CHR ''a'', ESCAPE_SYMBOL, CHR ''*'']) ''aa''
      = Some False"
    using ne by (simp add: eval_defs cong: let_weak_cong prod.case_cong_weak)
  show ?thesis using 1 2 3 4 by simp
qed

theorem tokenizer_spec_witness:
  "itemize_regex (Some [CHR ''a'', CHR 0x5C, CHR ''*'', CHR ''b'', CHR 0x5C]) =
     Some [new_item (CHR ''a'') OPERAND, new_item (CHR ''*'') OPERAND,
           new_item (CHR ''b'') OPERAND, new_item (CHR 0x5C) OPERAND] \<and>
   matches (compile (CHR 0x00) [CHR ''a'', CHR 0x5C, CHR ''*'']) ''a*'' = Some True \<and>
   matches (compile (CHR 0x00) [CHR ''a'', CHR 0x5C, CHR ''*'']) ''aa'' = Some False"
proof -
  have "CHR 0x00 \<notin> set ''a*''" by simp
  from tokenizer_spec [OF this, of "[CHR ''a'', CHR 0x5C, CHR ''*'', CHR ''b'', CHR 0x5C]"
      "CHR ''c''"]
  show ?thesis by (simp add: new_item_def symbol_defs get_item_type_def)
qed

text \<open>
  Claim C9. The character \<open>.\<close> is classified as the concatenation operator, and the
  tokenizer gives it that type wherever it stands unescaped (after a prefix with no
  pending escape); after a pending escape it is a literal. So the pattern \<open>a.b\<close>
  accepts \<open>ab\<close> and rejects \<open>a.b\<close>, while the pattern \<open>a\.b\<close> accepts \<open>a.b\<close>.
\<close>

theorem dot_is_concatenation:
  assumes "EPSILON_SYMBOL \<notin> set ''ab.''"
  shows "get_item_type (CHR ''.'') = CONCATENATION \<and>
         (\<not> escape_pending u \<longrightarrow>
            itemize_regex (Some (u @ CHR ''.'' # v)) =
              (case v of
                 [] \<Rightarrow> Some (tokenize_spec u @ [\<lparr>ivalue = CHR ''.'', itype = CONCATENATION\<rparr>])
               | _ # _ \<Rightarrow> Some (tokenize_spec u @
                     \<lparr>ivalue = CHR ''.'', itype = CONCATENATION\<rparr> # tokenize_spec v))) \<and>
         (escape_pending u \<longrightarrow>
            itemize_regex (Some (u @ CHR ''.'' # v)) =
              Some (butlast (tokenize_spec u) @
                    \<lparr>ivalue = CHR ''.'', itype = OPERAND\<rparr> # tokenize_spec v)) \<and>
         matches (compile EPSILON_SYMBOL ''a.b'') ''ab'' = Some True \<and>
         matches (compile EPSILON_SYMBOL ''a.b'') ''a.b'' = Some False \<and>
         matches (compile EPSILON_SYMBOL [CHR ''a'', ESCAPE_SYMBOL, CHR ''.'', CHR ''b''])
           ''a.b'' = Some True \<and>
         matches (compile EPSILON_SYMBOL [CHR ''a'', ESCAPE_SYMBOL, CHR ''.'', CHR ''b''])
           ''ab'' = Some False"
proof -
  have ne: "CHR ''a'' \<noteq> EPSILON_SYMBOL" "CHR ''b'' \<noteq> EPSILON_SYMBOL"
      "CHR ''.'' \<noteq> EPSILON_SYMBOL"
    using assms by auto
  have 1: "get_item_type (CHR ''.'') = CONCATENATION"
    by (simp add: get_item_type_def symbol_defs)
  have dot: "tokenize_spec (CHR ''.'' # v) =
      \<lparr>ivalue = CHR ''.'', itype = CONCATENATION\<rparr> # tokenize_spec v"
    using 1 by (cases v) (simp_all add: symbol_defs)
  have 2: "\<not> escape_pending u \<longrightarrow>
      itemize_regex (Some (u @ CHR ''.'' # v)) =
        (case v of
           [] \<Rightarrow> Some (tokenize_spec u @ [\<lparr>ivalue = CHR ''.'', itype = CONCATENATION\<rparr>])
         | _ # _ \<Rightarrow> Some (tokenize_spec u @
               \<lparr>ivalue = CHR ''.'', itype = CONCATENATION\<rparr> # tokenize_spec v))"
    using dot by (cases v) (simp_all add: itemize_regex_spec tokenize_spec_append)
  have 3: "escape_pending u \<longrightarrow>
      itemize_regex (Some (u @ CHR ''.'' # v)) =
        Some (butlast (tokenize_spec u) @
              \<lparr>ivalue = CHR ''.'', itype = OPERAND\<rparr> # tokenize_spec v)"
    by (simp add: itemize_regex_spec tokenize_spec_append_pending)
  have 4: "matches (compile EPSILON_SYMBOL ''a.b'') ''ab'' = Some True"
    using ne by (simp add: eval_defs cong: let_weak_cong prod.case_cong_weak)
  have 5: "matches (compile EPSILON_SYMBOL ''a.b'') ''a.b'' = Some False"
    using ne by (simp add: eval_defs cong: let_weak_cong prod.case_cong_weak)
  have 6: "matches (compile EPSILON_SYMBOL [CHR ''a'', ESCAPE_SYMBOL, CHR ''.'', CHR ''b''])
      ''a.b'' = Some True"
    using ne by (simp add: eval_defs cong: let_weak_cong prod.case_cong_weak)
  have 7: "matches (compile EPSILON_SYMBOL [CHR ''a'', ESCAPE_SYMBOL, CHR ''.'', CHR ''b''])
      ''ab'' = Some False"
    using ne by (simp add: eval_defs cong: let_weak_cong prod.case_cong_weak)
  show ?thesis using 1 2 3 4 5 6 7 by blast
qed

theorem dot_is_concatenation_witness:
  "itemize_regex (Some ''a.b'') =
     Some [new_item (CHR ''a'') OPERAND, new_item (CHR ''.'') CONCATENATION,
           new_item (CHR ''b'') OPERAND] \<and>
   itemize_regex (Some [CHR ''a'', CHR 0x5C, CHR ''.'', CHR ''b'']) =
     Some [new_item (CHR ''a'') OPERAND, new_item (CHR ''.'') OPERAND,
           new_item (CHR ''b'') OPERAND] \<and>
   matches (compile (CHR 0x00) ''a.b'') ''ab'' = Some True \<and>
   matches (compile (CHR 0x00) ''a.b'') ''a.b'' = Some False"
proof -
  have e: "CHR 0x00 \<notin> set ''ab.''" by simp
  have p1: "\<not> escape_pending ''a''" by (simp add: symbol_defs)
  have p2: "escape_pending [CHR ''a'', CHR 0x5C]" by (simp add: symbol_defs)
  show ?thesis
    using dot_is_concatenation [OF e, of "''a''" "''b''"]
      dot_is_concatenation [OF e, of "[CHR ''a'', CHR 0x5C]" "''b''"] p1 p2
    by (simp add: new_item_def symbol_defs get_item_type_def)
qed

section \<open>The alphabet invariant\<close>

lemma column_of_ge: "- 1 \<le> column_of xs c"
  by (induction xs) (auto simp: Let_def)

lemma column_of_notin: "c \<notin> set xs \<Longrightarrow> column_of xs c = - 1"
  by (induction xs) (auto simp: Let_def)

lemma column_of_in:
  "c \<in> set xs \<Longrightarrow>
     0 \<le> column_of xs c \<and> nat (column_of xs c) < length xs \<and> xs ! nat (column_of xs c) = c"
proof (induction xs)
  case Nil
  then show ?case by simp
next
  case (Cons x xs)
  show ?case
  proof (cases "x = c")
    case True
    then show ?thesis by simp
  next
    case False
    then have "c \<in> set xs" using Cons.prems by simp
    then have ih: "0 \<le> column_of xs c" "nat (column_of xs c) < length xs"
        "xs ! nat (column_of xs c) = c"
      using Cons.IH by simp_all
    have "nat (column_of xs c + 1) = Suc (nat (column_of xs c))" using ih(1) by simp
    then show ?thesis using False ih by (simp add: Let_def)
  qed
qed

lemma column_of_iff: "column_of xs c = - 1 \<longleftrightarrow> c \<notin> set xs"
  using column_of_in [of c xs] column_of_notin [of c xs] by auto

lemma column_of_append:
  "column_of (xs @ [s]) c =
     (if c \<in> set xs then column_of xs c
      else if c = s then int (length xs) else - 1)"
proof (induction xs)
  case Nil
  then show ?case by simp
next
  case (Cons x xs)
  show ?case
  proof (cases "x = c")
    case True
    then show ?thesis by simp
  next
    case False
    then show ?thesis using Cons column_of_iff [of xs c] by (auto simp: Let_def)
  qed
qed

lemma column_of_nth:
  "distinct xs \<Longrightarrow> i < length xs \<Longrightarrow> column_of xs (xs ! i) = int i"
proof (induction xs arbitrary: i)
  case Nil
  then show ?case by simp
next
  case (Cons x xs)
  show ?case
  proof (cases i)
    case 0
    then show ?thesis by simp
  next
    case (Suc j)
    then have j: "j < length xs" using Cons.prems by simp
    then have "xs ! j \<in> set xs" by simp
    then have "x \<noteq> xs ! j" using Cons.prems(1) by auto
    moreover have "column_of xs (xs ! j) = int j" using Cons.IH Cons.prems(1) j by simp
    ultimately show ?thesis using Suc by (simp add: Let_def)
  qed
qed

lemma first_seen_snoc:
  "first_seen seen (xs @ [x]) =
     (if x \<in> set (first_seen seen xs) then first_seen seen xs else first_seen seen xs @ [x])"
  by (induction xs arbitrary: seen) simp_all

lemma set_first_seen: "set (first_seen seen xs) = set seen \<union> set xs"
  by (induction xs arbitrary: seen) auto

lemma distinct_first_seen: "distinct seen \<Longrightarrow> distinct (first_seen seen xs)"
  by (induction xs arbitrary: seen) auto

lemma first_seen_prefix: "\<exists>ys. first_seen seen xs = seen @ ys"
proof (induction xs arbitrary: seen)
  case Nil
  then show ?case by simp
next
  case (Cons x xs)
  obtain ys where "first_seen (if x \<in> set seen then seen else seen @ [x]) xs =
      (if x \<in> set seen then seen else seen @ [x]) @ ys"
    using Cons by blast
  then show ?case by (cases "x \<in> set seen") simp_all
qed

lemma first_seen_hd: "first_seen (e # seen) xs ! 0 = e"
  using first_seen_prefix [of "e # seen" xs] by auto

lemma alphabet_ok_new: "alphabet_ok e (new_states_manager e)"
  by (simp add: alphabet_ok_def new_states_manager_def new_alphabet_def)

lemma alphabet_ok_new_state: "alphabet_ok e m \<Longrightarrow> alphabet_ok e (snd (new_state m))"
  by (simp add: alphabet_ok_def new_state_def Let_def)

lemma alphabet_ok_add_transition:
  assumes "alphabet_ok e m"
  shows "alphabet_ok e (add_transition e m f s t)"
proof -
  let ?a = "manager_alphabet m"
  let ?used = "map symbol (transitions m)"
  have syms: "symbols ?a = first_seen [e] ?used"
    and cnt: "symbol_count ?a = length (symbols ?a)"
    and col: "\<And>c. char_to_col ?a c = column_of (symbols ?a) c"
    using assms by (simp_all add: alphabet_ok_def Let_def)
  have e_in: "e \<in> set (symbols ?a)" by (simp add: syms set_first_seen)
  have used': "map symbol (transitions (add_transition e m f s t)) = ?used @ [s]"
    by (simp add: add_transition_def)
  have alpha': "manager_alphabet (add_transition e m f s t) = add_symbol e ?a s"
    by (simp add: add_transition_def)
  show ?thesis
  proof (cases "s \<in> set (symbols ?a)")
    case True
    then have "char_to_col ?a s \<noteq> - 1" using col column_of_iff by simp
    then have "add_symbol e ?a s = ?a" by (simp add: add_symbol_def)
    moreover have "first_seen [e] (?used @ [s]) = first_seen [e] ?used"
      using True syms by (simp add: first_seen_snoc)
    ultimately show ?thesis
      using syms cnt col used' alpha' by (simp add: alphabet_ok_def Let_def)
  next
    case False
    then have ne: "s \<noteq> e" using e_in by auto
    have "char_to_col ?a s = - 1" using False col column_of_iff by simp
    then have add: "add_symbol e ?a s =
        \<lparr>char_to_col = (char_to_col ?a)(s := int (symbol_count ?a)),
         symbols = symbols ?a @ [s],
         symbol_count = symbol_count ?a + 1\<rparr>"
      using ne by (simp add: add_symbol_def Let_def)
    have fs: "first_seen [e] (?used @ [s]) = symbols ?a @ [s]"
      using False syms by (simp add: first_seen_snoc)
    have "((char_to_col ?a)(s := int (symbol_count ?a))) c = column_of (symbols ?a @ [s]) c"
      for c
      using False col cnt column_of_notin [of c "symbols ?a"]
      by (auto simp: column_of_append)
    then show ?thesis
      using add fs cnt used' alpha' by (simp add: alphabet_ok_def Let_def)
  qed
qed

lemma alphabet_ok_apply_op: "alphabet_ok e m \<Longrightarrow> alphabet_ok e (apply_op e m x)"
  by (cases x) (simp_all add: alphabet_ok_new_state alphabet_ok_add_transition)

lemma alphabet_ok_foldl:
  "alphabet_ok e m \<Longrightarrow> alphabet_ok e (foldl (apply_op e) m ops)"
  by (induction ops arbitrary: m) (simp_all add: alphabet_ok_apply_op)

lemma alphabet_ok_run_ops: "alphabet_ok e (run_ops e ops)"
  by (simp add: run_ops_def alphabet_ok_foldl alphabet_ok_new)

lemma alphabet_ok_facts:
  assumes "alphabet_ok e m"
  shows "alphabet_facts e m"
proof -
  let ?a = "manager_alphabet m"
  let ?used = "map symbol (transitions m)"
  have syms: "symbols ?a = first_seen [e] ?used"
    and cnt: "symbol_count ?a = length (symbols ?a)"
    and col: "\<And>c. char_to_col ?a c = column_of (symbols ?a) c"
    using assms by (simp_all add: alphabet_ok_def Let_def)
  have dist: "distinct (symbols ?a)" by (simp add: syms distinct_first_seen)
  have hd0: "symbols ?a ! 0 = e" by (simp add: syms first_seen_hd)
  have e_in: "e \<in> set (symbols ?a)" by (simp add: syms set_first_seen)
  have len: "0 < length (symbols ?a)" using e_in by (cases "symbols ?a") auto
  have e0: "char_to_col ?a e = 0"
    using column_of_nth [OF dist len] hd0 col by simp
  have inset: "0 \<le> char_to_col ?a c \<and> nat (char_to_col ?a c) < symbol_count ?a \<and>
      symbols ?a ! nat (char_to_col ?a c) = c" if "c \<in> set (symbols ?a)" for c
    using column_of_in [OF that] col cnt by simp
  have used: "symbol t \<in> set (symbols ?a)" if "t \<in> set (transitions m)" for t
    using that by (simp add: syms set_first_seen)
  have absent: "(char_to_col ?a c = - 1) = (c \<notin> set (symbols ?a))" for c
    using col column_of_iff by simp
  have nth: "char_to_col ?a (symbols ?a ! i) = int i" if "i < symbol_count ?a" for i
    using that column_of_nth [OF dist] col cnt by simp
  have a1: "add_symbol e ?a e = ?a" by (simp add: add_symbol_def)
  have a2: "add_symbol e ?a s = ?a" if "char_to_col ?a s \<noteq> - 1" for s
    using that by (simp add: add_symbol_def)
  show ?thesis
    unfolding alphabet_facts_def Let_def
    using e0 hd0 syms cnt dist inset used absent nth a1 a2 by blast
qed

lemma alphabet_ok_symbol_nfa:
  "alphabet_ok e m \<Longrightarrow> alphabet_ok e (snd (symbol_nfa e m c))"
  using alphabet_ok_new_state alphabet_ok_add_transition
  by (simp add: symbol_nfa_def split_beta Let_def)

lemma alphabet_ok_concat_nfa:
  "alphabet_ok e m \<Longrightarrow> alphabet_ok e (snd (concat_nfa e m a b))"
  using alphabet_ok_add_transition by (simp add: concat_nfa_def Let_def)

lemma alphabet_ok_union_nfa:
  "alphabet_ok e m \<Longrightarrow> alphabet_ok e (snd (union_nfa e m a b))"
  using alphabet_ok_new_state alphabet_ok_add_transition
  by (simp add: union_nfa_def split_beta Let_def)

lemma alphabet_ok_positive_closure_nfa:
  "alphabet_ok e m \<Longrightarrow> alphabet_ok e (snd (positive_closure_nfa e m a))"
  using alphabet_ok_new_state alphabet_ok_add_transition
  by (simp add: positive_closure_nfa_def split_beta Let_def)

lemma alphabet_ok_kleene_closure_nfa:
  "alphabet_ok e m \<Longrightarrow> alphabet_ok e (snd (kleene_closure_nfa e m a))"
  using alphabet_ok_positive_closure_nfa alphabet_ok_add_transition
  by (simp add: kleene_closure_nfa_def split_beta Let_def)

lemma alphabet_ok_optional_nfa:
  "alphabet_ok e m \<Longrightarrow> alphabet_ok e (snd (optional_nfa e m a))"
  using alphabet_ok_new_state alphabet_ok_add_transition
  by (simp add: optional_nfa_def split_beta Let_def)

lemmas alphabet_ok_builders =
  alphabet_ok_symbol_nfa alphabet_ok_concat_nfa alphabet_ok_union_nfa
  alphabet_ok_positive_closure_nfa alphabet_ok_kleene_closure_nfa alphabet_ok_optional_nfa

lemma alphabet_ok_build_loop:
  "alphabet_ok e m \<Longrightarrow> build_loop e its m st = Inr (m', st') \<Longrightarrow> alphabet_ok e m'"
proof (induction its arbitrary: m st)
  case Nil
  then show ?case by simp
next
  case (Cons x its)
  show ?case
  proof (cases "itype x")
    case OPERAND
    then show ?thesis
      using Cons.prems Cons.IH [OF alphabet_ok_symbol_nfa [OF Cons.prems(1)]]
      by (auto simp: split_beta)
  next
    case CONCATENATION
    then show ?thesis
      using Cons.prems Cons.IH [OF alphabet_ok_concat_nfa [OF Cons.prems(1)]]
      by (auto simp: split_beta split: list.splits)
  next
    case ALTERNATION
    then show ?thesis
      using Cons.prems Cons.IH [OF alphabet_ok_union_nfa [OF Cons.prems(1)]]
      by (auto simp: split_beta split: list.splits)
  next
    case KLEENE_STAR
    then show ?thesis
      using Cons.prems Cons.IH [OF alphabet_ok_kleene_closure_nfa [OF Cons.prems(1)]]
      by (auto simp: split_beta split: list.splits)
  next
    case POSITIVE_CLOSURE
    then show ?thesis
      using Cons.prems Cons.IH [OF alphabet_ok_positive_closure_nfa [OF Cons.prems(1)]]
      by (auto simp: split_beta split: list.splits)
  next
    case OPTIONAL
    then show ?thesis
      using Cons.prems Cons.IH [OF alphabet_ok_optional_nfa [OF Cons.prems(1)]]
      by (auto simp: split_beta split: list.splits)
  next
    case L_PARENTHESIS
    then show ?thesis using Cons.prems Cons.IH by auto
  next
    case R_PARENTHESIS
    then show ?thesis using Cons.prems Cons.IH by auto
  qed
qed

lemma nfa_alphabet_fold_closure:
  "nfa_alphabet (fold (\<lambda>i a. epsilon_closure e a i) xs A) = nfa_alphabet A"
  by (induction xs arbitrary: A) (simp_all add: epsilon_closure_def Let_def)

lemma nfa_alphabet_t_nfa_to_nfa:
  "nfa_alphabet (t_nfa_to_nfa e f m) = manager_alphabet m"
  by (simp add: t_nfa_to_nfa_def calculate_epsilon_closure_def Let_def
      nfa_alphabet_fold_closure)

text \<open>
  Claim C8. The alphabet invariant holds in every state of a states manager that the
  operations of nfa.c can reach from \<open>new_states_manager\<close>, so throughout a
  compilation and in the compiled automaton: epsilon has column 0; every symbol of a
  recorded transition has a column, and only one; the columns follow the order in which
  the distinct symbols were first seen; adding epsilon or a symbol that is present
  changes nothing.
\<close>

theorem alphabet_invariant:
  "(\<forall>ops. alphabet_facts EPSILON_SYMBOL (run_ops EPSILON_SYMBOL ops)) \<and>
   (\<forall>its m stack.
      build_loop EPSILON_SYMBOL its (new_states_manager EPSILON_SYMBOL) [] = Inr (m, stack)
        \<longrightarrow> alphabet_facts EPSILON_SYMBOL m) \<and>
   (\<forall>r automaton.
      regex_to_nfa EPSILON_SYMBOL r = Inr automaton
        \<longrightarrow> (\<exists>m. nfa_alphabet automaton = manager_alphabet m \<and>
                 alphabet_facts EPSILON_SYMBOL m))"
proof (intro conjI allI impI)
  fix ops
  show "alphabet_facts EPSILON_SYMBOL (run_ops EPSILON_SYMBOL ops)"
    by (intro alphabet_ok_facts alphabet_ok_run_ops)
next
  fix its m stack
  assume "build_loop EPSILON_SYMBOL its (new_states_manager EPSILON_SYMBOL) [] = Inr (m, stack)"
  then show "alphabet_facts EPSILON_SYMBOL m"
    using alphabet_ok_build_loop [OF alphabet_ok_new] alphabet_ok_facts by blast
next
  fix r automaton
  assume r: "regex_to_nfa EPSILON_SYMBOL r = Inr automaton"
  then obtain m f st where
      b: "build_loop EPSILON_SYMBOL (regex_items r) (new_states_manager EPSILON_SYMBOL) []
            = Inr (m, f # st)"
      and a: "automaton = t_nfa_to_nfa EPSILON_SYMBOL f m"
    by (auto simp: regex_to_nfa_def split: sum.splits list.splits)
  have "alphabet_facts EPSILON_SYMBOL m"
    using b alphabet_ok_build_loop [OF alphabet_ok_new] alphabet_ok_facts by blast
  then show "\<exists>m. nfa_alphabet automaton = manager_alphabet m \<and> alphabet_facts EPSILON_SYMBOL m"
    using a nfa_alphabet_t_nfa_to_nfa by blast
qed

theorem alphabet_invariant_witness:
  "\<exists>m stack.
     build_loop (CHR 0x00) (regex_items (parse_regex (Some ''b(a|b)a'')))
       (new_states_manager (CHR 0x00)) [] = Inr (m, stack) \<and>
     symbols (manager_alphabet m) = [CHR 0x00, CHR ''b'', CHR ''a''] \<and>
     symbols (manager_alphabet m) =
       first_seen [CHR 0x00] (map symbol (transitions m)) \<and>
     char_to_col (manager_alphabet m) (CHR 0x00) = 0 \<and>
     char_to_col (manager_alphabet m) (CHR ''b'') = 1 \<and>
     char_to_col (manager_alphabet m) (CHR ''a'') = 2 \<and>
     distinct (symbols (manager_alphabet m))"
proof -
  have "case build_loop (CHR 0x00) (regex_items (parse_regex (Some ''b(a|b)a'')))
            (new_states_manager (CHR 0x00)) [] of
          Inl err \<Rightarrow> False
        | Inr (m, stack) \<Rightarrow> symbols (manager_alphabet m) = [CHR 0x00, CHR ''b'', CHR ''a'']"
    by (simp add: eval_defs cong: let_weak_cong prod.case_cong_weak)
  then obtain m stack where
      b: "build_loop (CHR 0x00) (regex_items (parse_regex (Some ''b(a|b)a'')))
            (new_states_manager (CHR 0x00)) [] = Inr (m, stack)"
      and s: "symbols (manager_alphabet m) = [CHR 0x00, CHR ''b'', CHR ''a'']"
    by (auto split: sum.splits)
  have af: "alphabet_facts (CHR 0x00) m"
    using alphabet_invariant [of "CHR 0x00"] b by blast
  have f1: "char_to_col (manager_alphabet m) (CHR 0x00) = 0"
    using af unfolding alphabet_facts_def Let_def by (elim conjE) assumption
  have f2: "symbols (manager_alphabet m) = first_seen [CHR 0x00] (map symbol (transitions m))"
    using af unfolding alphabet_facts_def Let_def by (elim conjE) assumption
  have f3: "distinct (symbols (manager_alphabet m))"
    using af unfolding alphabet_facts_def Let_def by (elim conjE) assumption
  have f4: "\<forall>i < symbol_count (manager_alphabet m).
         char_to_col (manager_alphabet m) (symbols (manager_alphabet m) ! i) = int i"
    using af unfolding alphabet_facts_def Let_def by (elim conjE) assumption
  have f5: "symbol_count (manager_alphabet m) = length (symbols (manager_alphabet m))"
    using af unfolding alphabet_facts_def Let_def by (elim conjE) assumption
  have "1 < symbol_count (manager_alphabet m) \<longrightarrow>
        char_to_col (manager_alphabet m) (symbols (manager_alphabet m) ! 1) = int 1"
      "2 < symbol_count (manager_alphabet m) \<longrightarrow>
        char_to_col (manager_alphabet m) (symbols (manager_alphabet m) ! 2) = int 2"
    using f4 by blast+
  then have "char_to_col (manager_alphabet m) (CHR ''b'') = 1"
      "char_to_col (manager_alphabet m) (CHR ''a'') = 2"
    using f5 s by simp_all
  then show ?thesis using b s f1 f2 f3 by metis
qed

section \<open>The epsilon byte as an input symbol\<close>

lemma epsilon_column_compiled:
  assumes "regex_to_nfa e r = Inr A"
  shows "char_to_col (nfa_alphabet A) e = 0"
proof -
  obtain m f st where
      b: "build_loop e (regex_items r) (new_states_manager e) [] = Inr (m, f # st)"
      and a: "A = t_nfa_to_nfa e f m"
    using assms by (auto simp: regex_to_nfa_def split: sum.splits list.splits)
  have "alphabet_facts e m"
    using b alphabet_ok_build_loop [OF alphabet_ok_new] alphabet_ok_facts by blast
  then have "char_to_col (manager_alphabet m) e = 0"
    unfolding alphabet_facts_def Let_def by (elim conjE) assumption
  then show ?thesis using a by (simp add: nfa_alphabet_t_nfa_to_nfa)
qed

text \<open>
  Claim C3. The two examples hold: the automaton compiled from \<open>(ab)*c\<close> accepts
  \<open>ababc\<close> and rejects \<open>ababcx\<close>. The general statement does not hold of the code.
  \<open>match_nfa\<close> looks every input byte up in \<open>char_to_col\<close>, the table in which
  \<open>new_alphabet\<close> has entered the epsilon symbol with column 0, and it tests the
  column for \<open>- 1\<close> only. An input byte equal to the epsilon symbol is therefore never
  an unknown symbol: the loop follows the epsilon transitions for it. So \<open>(ab)*c\<close>
  accepts \<open>ababc\<close> with that byte in front of it or inside it, \<open>a*\<close> accepts \<open>a\<close>
  followed by that byte, and \<open>a+\<close> accepts that byte followed by \<open>a\<close>, although no
  pattern here contains the byte.
\<close>

theorem epsilon_byte_in_input:
  assumes "EPSILON_SYMBOL \<notin> set ''abcx''"
  shows "matches (compile EPSILON_SYMBOL ''(ab)*c'') ''ababc'' = Some True \<and>
         matches (compile EPSILON_SYMBOL ''(ab)*c'') ''ababcx'' = Some False \<and>
         matches (compile EPSILON_SYMBOL ''(ab)*c'') (EPSILON_SYMBOL # ''ababc'') = Some True \<and>
         matches (compile EPSILON_SYMBOL ''(ab)*c'')
           [CHR ''a'', CHR ''b'', CHR ''a'', CHR ''b'', EPSILON_SYMBOL, CHR ''c''] = Some True \<and>
         matches (compile EPSILON_SYMBOL ''a*'') [CHR ''a'', EPSILON_SYMBOL] = Some True \<and>
         matches (compile EPSILON_SYMBOL ''a+'') [EPSILON_SYMBOL, CHR ''a''] = Some True \<and>
         (\<forall>r automaton.
            regex_to_nfa EPSILON_SYMBOL r = Inr automaton
              \<longrightarrow> char_to_col (nfa_alphabet automaton) EPSILON_SYMBOL = 0)"
proof -
  have ne: "CHR ''a'' \<noteq> EPSILON_SYMBOL" "CHR ''b'' \<noteq> EPSILON_SYMBOL"
      "CHR ''c'' \<noteq> EPSILON_SYMBOL" "CHR ''x'' \<noteq> EPSILON_SYMBOL"
      "EPSILON_SYMBOL \<noteq> CHR ''a''" "EPSILON_SYMBOL \<noteq> CHR ''b''"
      "EPSILON_SYMBOL \<noteq> CHR ''c''" "EPSILON_SYMBOL \<noteq> CHR ''x''"
    using assms by auto
  have 1: "matches (compile EPSILON_SYMBOL ''(ab)*c'') ''ababc'' = Some True"
    using ne by (simp add: eval_defs cong: let_weak_cong prod.case_cong_weak)
  have 2: "matches (compile EPSILON_SYMBOL ''(ab)*c'') ''ababcx'' = Some False"
    using ne by (simp add: eval_defs cong: let_weak_cong prod.case_cong_weak)
  have 3: "matches (compile EPSILON_SYMBOL ''(ab)*c'') (EPSILON_SYMBOL # ''ababc'') = Some True"
    using ne by (simp add: eval_defs cong: let_weak_cong prod.case_cong_weak)
  have 4: "matches (compile EPSILON_SYMBOL ''(ab)*c'')
      [CHR ''a'', CHR ''b'', CHR ''a'', CHR ''b'', EPSILON_SYMBOL, CHR ''c''] = Some True"
    using ne by (simp add: eval_defs cong: let_weak_cong prod.case_cong_weak)
  have 5: "matches (compile EPSILON_SYMBOL ''a*'') [CHR ''a'', EPSILON_SYMBOL] = Some True"
    using ne by (simp add: eval_defs cong: let_weak_cong prod.case_cong_weak)
  have 6: "matches (compile EPSILON_SYMBOL ''a+'') [EPSILON_SYMBOL, CHR ''a''] = Some True"
    using ne by (simp add: eval_defs cong: let_weak_cong prod.case_cong_weak)
  show ?thesis using 1 2 3 4 5 6 epsilon_column_compiled by blast
qed

theorem epsilon_byte_in_input_witness:
  "matches (compile (CHR 0x00) ''(ab)*c'') ''ababc'' = Some True \<and>
   matches (compile (CHR 0x00) ''(ab)*c'') ''ababcx'' = Some False \<and>
   matches (compile (CHR 0x00) ''(ab)*c'')
     [CHR 0x00, CHR ''a'', CHR ''b'', CHR ''a'', CHR ''b'', CHR ''c''] = Some True \<and>
   matches (compile (CHR 0x00) ''a*'') [CHR ''a'', CHR 0x00] = Some True"
proof -
  have "CHR 0x00 \<notin> set ''abcx''" by simp
  from epsilon_byte_in_input [OF this] show ?thesis by blast
qed

section \<open>The Thompson builder on the output of the parser\<close>

lemma fragments_after_append:
  "fragments_after (xs @ ys) k =
     (case fragments_after xs k of None \<Rightarrow> None | Some j \<Rightarrow> fragments_after ys j)"
  by (induction xs arbitrary: k) (auto split: item_type.splits)

lemma build_loop_fragments_Some:
  "fragments_after its (length st) = Some k \<Longrightarrow>
     \<exists>m' st'. build_loop e its m st = Inr (m', st') \<and> length st' = k"
proof (induction its arbitrary: m st)
  case Nil
  then show ?case by simp
next
  case (Cons x its)
  show ?case
  proof (cases "itype x")
    case OPERAND
    then show ?thesis
      using Cons.prems Cons.IH [of "fst (symbol_nfa e m (ivalue x)) # st"]
      by (simp add: split_beta)
  next
    case CONCATENATION
    then obtain b a st0 where st: "st = b # a # st0"
      using Cons.prems by (cases st; cases "tl st") (auto split: if_splits)
    then show ?thesis
      using CONCATENATION Cons.prems Cons.IH [of "fst (concat_nfa e m a b) # st0"]
      by (simp add: split_beta)
  next
    case ALTERNATION
    then obtain b a st0 where st: "st = b # a # st0"
      using Cons.prems by (cases st; cases "tl st") (auto split: if_splits)
    then show ?thesis
      using ALTERNATION Cons.prems Cons.IH [of "fst (union_nfa e m a b) # st0"]
      by (simp add: split_beta)
  next
    case KLEENE_STAR
    then obtain a st0 where st: "st = a # st0"
      using Cons.prems by (cases st) (auto split: if_splits)
    then show ?thesis
      using KLEENE_STAR Cons.prems Cons.IH [of "fst (kleene_closure_nfa e m a) # st0"]
      by (simp add: split_beta)
  next
    case POSITIVE_CLOSURE
    then obtain a st0 where st: "st = a # st0"
      using Cons.prems by (cases st) (auto split: if_splits)
    then show ?thesis
      using POSITIVE_CLOSURE Cons.prems Cons.IH [of "fst (positive_closure_nfa e m a) # st0"]
      by (simp add: split_beta)
  next
    case OPTIONAL
    then obtain a st0 where st: "st = a # st0"
      using Cons.prems by (cases st) (auto split: if_splits)
    then show ?thesis
      using OPTIONAL Cons.prems Cons.IH [of "fst (optional_nfa e m a) # st0"]
      by (simp add: split_beta)
  next
    case L_PARENTHESIS
    then show ?thesis using Cons.prems Cons.IH by simp
  next
    case R_PARENTHESIS
    then show ?thesis using Cons.prems Cons.IH by simp
  qed
qed

lemma build_loop_fragments_None:
  "fragments_after its (length st) = None \<Longrightarrow> build_loop e its m st = Inl STACK_UNDERFLOW"
proof (induction its arbitrary: m st)
  case Nil
  then show ?case by simp
next
  case (Cons x its)
  show ?case
  proof (cases "itype x")
    case OPERAND
    then show ?thesis
      using Cons.prems Cons.IH [of "fst (symbol_nfa e m (ivalue x)) # st"]
      by (simp add: split_beta)
  next
    case CONCATENATION
    then show ?thesis
      using Cons.prems Cons.IH
      by (cases st; cases "tl st") (auto simp: split_beta split: if_splits)
  next
    case ALTERNATION
    then show ?thesis
      using Cons.prems Cons.IH
      by (cases st; cases "tl st") (auto simp: split_beta split: if_splits)
  next
    case KLEENE_STAR
    then show ?thesis
      using Cons.prems Cons.IH by (cases st) (auto simp: split_beta split: if_splits)
  next
    case POSITIVE_CLOSURE
    then show ?thesis
      using Cons.prems Cons.IH by (cases st) (auto simp: split_beta split: if_splits)
  next
    case OPTIONAL
    then show ?thesis
      using Cons.prems Cons.IH by (cases st) (auto simp: split_beta split: if_splits)
  next
    case L_PARENTHESIS
    then show ?thesis using Cons.prems Cons.IH by simp
  next
    case R_PARENTHESIS
    then show ?thesis using Cons.prems Cons.IH by simp
  qed
qed

lemma fragments_after_snoc:
  "fragments_after (xs @ [t]) k =
     (case fragments_after xs k of None \<Rightarrow> None | Some j \<Rightarrow> fragments_after [t] j)"
  by (rule fragments_after_append)

text \<open>Popping one operator from the stack to the output, after a completed operand.\<close>

lemma pop_one:
  assumes "operators_only (t # stack)" and "itype t \<noteq> L_PARENTHESIS"
    and "fragments_after out 0 = Some (binary_count (t # stack) + 1)"
  shows "fragments_after (out @ [t]) 0 = Some (binary_count stack + 1)"
proof -
  have ty: "itype t \<noteq> OPERAND" "itype t \<noteq> R_PARENTHESIS"
    using assms(1) by (simp_all add: operators_only_def)
  show ?thesis
    using assms(2,3) ty
    by (cases "itype t")
      (simp_all add: fragments_after_snoc binary_count_def is_binary_def)
qed

lemma operators_only_tl: "operators_only (t # stack) \<Longrightarrow> operators_only stack"
  by (simp add: operators_only_def)

lemma pop_higher_inv:
  assumes "operators_only stack"
    and "fragments_after out 0 = Some (binary_count stack + 1)"
    and "pop_higher cur stack out = (stack', out')"
  shows "operators_only stack' \<and> fragments_after out' 0 = Some (binary_count stack' + 1)"
  using assms
proof (induction stack arbitrary: out)
  case Nil
  then show ?case by auto
next
  case (Cons t stack)
  show ?case
  proof (cases "itype t \<noteq> L_PARENTHESIS \<and>
      get_precedence (itype t) \<ge> get_precedence (itype cur)")
    case True
    then have "pop_higher cur stack (out @ [t]) = (stack', out')"
      using Cons.prems(3) by simp
    moreover have "fragments_after (out @ [t]) 0 = Some (binary_count stack + 1)"
      using pop_one [OF Cons.prems(1) _ Cons.prems(2)] True by simp
    ultimately show ?thesis
      using Cons.IH operators_only_tl [OF Cons.prems(1)] by blast
  next
    case False
    then have "stack' = t # stack" "out' = out" using Cons.prems(3) by auto
    then show ?thesis using Cons.prems by simp
  qed
qed

lemma pop_to_paren_inv:
  assumes "operators_only stack"
    and "fragments_after out 0 = Some (binary_count stack + 1)"
    and "pop_to_paren stack out = (stack', out')"
  shows "operators_only stack' \<and> fragments_after out' 0 = Some (binary_count stack' + 1)"
  using assms
proof (induction stack arbitrary: out)
  case Nil
  then show ?case by auto
next
  case (Cons t stack)
  show ?case
  proof (cases "itype t \<noteq> L_PARENTHESIS")
    case True
    then have "pop_to_paren stack (out @ [t]) = (stack', out')"
      using Cons.prems(3) by simp
    moreover have "fragments_after (out @ [t]) 0 = Some (binary_count stack + 1)"
      using pop_one [OF Cons.prems(1) _ Cons.prems(2)] True by simp
    ultimately show ?thesis
      using Cons.IH operators_only_tl [OF Cons.prems(1)] by blast
  next
    case False
    then have "stack' = t # stack" "out' = out" using Cons.prems(3) by auto
    then show ?thesis using Cons.prems by simp
  qed
qed

lemma pop_rest_inv:
  assumes "operators_only stack"
    and "fragments_after out 0 = Some (binary_count stack + 1)"
    and "pop_rest stack out = Some postfix"
  shows "fragments_after postfix 0 = Some 1"
  using assms
proof (induction stack arbitrary: out)
  case Nil
  then show ?case by (simp add: binary_count_def)
next
  case (Cons t stack)
  then have ty: "itype t \<noteq> L_PARENTHESIS" by (auto split: if_splits)
  then have "pop_rest stack (out @ [t]) = Some postfix"
    using Cons.prems(3) by simp
  moreover have "fragments_after (out @ [t]) 0 = Some (binary_count stack + 1)"
    using pop_one [OF Cons.prems(1) ty Cons.prems(2)] .
  ultimately show ?case
    using Cons.IH operators_only_tl [OF Cons.prems(1)] by blast
qed

text \<open>The invariant of the shunting-yard loop on a sequence with its operands in
  place: the output is a postfix sequence that leaves as many fragments as there are
  binary operators waiting on the stack, and one more after a completed operand.\<close>

lemma sy_loop_inv:
  assumes "operands_in_place ready toks"
    and "operators_only stack"
    and "fragments_after out 0 = Some (binary_count stack + (if ready then 1 else 0))"
    and "sy_loop toks stack out = Some postfix"
  shows "fragments_after postfix 0 = Some 1"
  using assms
proof (induction toks arbitrary: ready stack out)
  case Nil
  then show ?case using pop_rest_inv [of stack out postfix] by simp
next
  case (Cons x toks)
  show ?case
  proof (cases "itype x")
    case OPERAND
    then have h: "\<not> ready" and w: "operands_in_place True toks"
      using Cons.prems(1) by simp_all
    have "fragments_after (out @ [x]) 0 = Some (binary_count stack + 1)"
      using Cons.prems(3) h OPERAND by (simp add: fragments_after_snoc)
    moreover have "sy_loop toks stack (out @ [x]) = Some postfix"
      using Cons.prems(4) OPERAND by simp
    ultimately show ?thesis
      using Cons.IH [OF w Cons.prems(2)] by simp
  next
    case L_PARENTHESIS
    then have h: "\<not> ready" and w: "operands_in_place False toks"
      using Cons.prems(1) by simp_all
    have o: "operators_only (x # stack)"
      using Cons.prems(2) L_PARENTHESIS by (simp add: operators_only_def)
    have "fragments_after out 0 = Some (binary_count (x # stack) + 0)"
      using Cons.prems(3) h L_PARENTHESIS by (simp add: binary_count_def is_binary_def)
    moreover have "sy_loop toks (x # stack) out = Some postfix"
      using Cons.prems(4) L_PARENTHESIS by simp
    ultimately show ?thesis
      using Cons.IH [OF w o] by simp
  next
    case R_PARENTHESIS
    then have h: "ready" and w: "operands_in_place True toks"
      using Cons.prems(1) by simp_all
    obtain stack' out' where p: "pop_to_paren stack out = (stack', out')"
      by (cases "pop_to_paren stack out")
    have inv: "operators_only stack'" "fragments_after out' 0 = Some (binary_count stack' + 1)"
      using pop_to_paren_inv [OF Cons.prems(2) _ p] Cons.prems(3) h by simp_all
    obtain t stack'' where s: "stack' = t # stack''"
      using Cons.prems(4) R_PARENTHESIS p by (cases stack') auto
    have tl: "itype t = L_PARENTHESIS"
      using p s
    proof (induction stack arbitrary: out)
      case Nil
      then show ?case by simp
    next
      case (Cons a stack)
      then show ?case by (auto split: if_splits)
    qed
    have "sy_loop toks stack'' out' = Some postfix"
      using Cons.prems(4) R_PARENTHESIS p s by simp
    moreover have "operators_only stack''" using inv(1) s operators_only_tl by blast
    moreover have "fragments_after out' 0 = Some (binary_count stack'' + 1)"
      using inv(2) s tl by (simp add: binary_count_def is_binary_def)
    ultimately show ?thesis
      using Cons.IH [OF w, of stack'' out'] by simp
  next
    case CONCATENATION
    then have h: "ready" and w: "operands_in_place False toks"
      using Cons.prems(1) by simp_all
    obtain stack' out' where p: "pop_higher x stack out = (stack', out')"
      by (cases "pop_higher x stack out")
    have inv: "operators_only stack'" "fragments_after out' 0 = Some (binary_count stack' + 1)"
      using pop_higher_inv [OF Cons.prems(2) _ p] Cons.prems(3) h by simp_all
    have o: "operators_only (x # stack')"
      using inv(1) CONCATENATION by (simp add: operators_only_def)
    have "fragments_after out' 0 = Some (binary_count (x # stack') + 0)"
      using inv(2) CONCATENATION by (simp add: binary_count_def is_binary_def)
    moreover have "sy_loop toks (x # stack') out' = Some postfix"
      using Cons.prems(4) CONCATENATION p by simp
    ultimately show ?thesis
      using Cons.IH [OF w o] by simp
  next
    case ALTERNATION
    then have h: "ready" and w: "operands_in_place False toks"
      using Cons.prems(1) by simp_all
    obtain stack' out' where p: "pop_higher x stack out = (stack', out')"
      by (cases "pop_higher x stack out")
    have inv: "operators_only stack'" "fragments_after out' 0 = Some (binary_count stack' + 1)"
      using pop_higher_inv [OF Cons.prems(2) _ p] Cons.prems(3) h by simp_all
    have o: "operators_only (x # stack')"
      using inv(1) ALTERNATION by (simp add: operators_only_def)
    have "fragments_after out' 0 = Some (binary_count (x # stack') + 0)"
      using inv(2) ALTERNATION by (simp add: binary_count_def is_binary_def)
    moreover have "sy_loop toks (x # stack') out' = Some postfix"
      using Cons.prems(4) ALTERNATION p by simp
    ultimately show ?thesis
      using Cons.IH [OF w o] by simp
  next
    case KLEENE_STAR
    then have h: "ready" and w: "operands_in_place True toks"
      using Cons.prems(1) by simp_all
    obtain stack' out' where p: "pop_higher x stack out = (stack', out')"
      by (cases "pop_higher x stack out")
    have inv: "operators_only stack'" "fragments_after out' 0 = Some (binary_count stack' + 1)"
      using pop_higher_inv [OF Cons.prems(2) _ p] Cons.prems(3) h by simp_all
    have o: "operators_only (x # stack')"
      using inv(1) KLEENE_STAR by (simp add: operators_only_def)
    have "fragments_after out' 0 = Some (binary_count (x # stack') + 1)"
      using inv(2) KLEENE_STAR by (simp add: binary_count_def is_binary_def)
    moreover have "sy_loop toks (x # stack') out' = Some postfix"
      using Cons.prems(4) KLEENE_STAR p by simp
    ultimately show ?thesis
      using Cons.IH [OF w o] by simp
  next
    case POSITIVE_CLOSURE
    then have h: "ready" and w: "operands_in_place True toks"
      using Cons.prems(1) by simp_all
    obtain stack' out' where p: "pop_higher x stack out = (stack', out')"
      by (cases "pop_higher x stack out")
    have inv: "operators_only stack'" "fragments_after out' 0 = Some (binary_count stack' + 1)"
      using pop_higher_inv [OF Cons.prems(2) _ p] Cons.prems(3) h by simp_all
    have o: "operators_only (x # stack')"
      using inv(1) POSITIVE_CLOSURE by (simp add: operators_only_def)
    have "fragments_after out' 0 = Some (binary_count (x # stack') + 1)"
      using inv(2) POSITIVE_CLOSURE by (simp add: binary_count_def is_binary_def)
    moreover have "sy_loop toks (x # stack') out' = Some postfix"
      using Cons.prems(4) POSITIVE_CLOSURE p by simp
    ultimately show ?thesis
      using Cons.IH [OF w o] by simp
  next
    case OPTIONAL
    then have h: "ready" and w: "operands_in_place True toks"
      using Cons.prems(1) by simp_all
    obtain stack' out' where p: "pop_higher x stack out = (stack', out')"
      by (cases "pop_higher x stack out")
    have inv: "operators_only stack'" "fragments_after out' 0 = Some (binary_count stack' + 1)"
      using pop_higher_inv [OF Cons.prems(2) _ p] Cons.prems(3) h by simp_all
    have o: "operators_only (x # stack')"
      using inv(1) OPTIONAL by (simp add: operators_only_def)
    have "fragments_after out' 0 = Some (binary_count (x # stack') + 1)"
      using inv(2) OPTIONAL by (simp add: binary_count_def is_binary_def)
    moreover have "sy_loop toks (x # stack') out' = Some postfix"
      using Cons.prems(4) OPTIONAL p by simp
    ultimately show ?thesis
      using Cons.IH [OF w o] by simp
  qed
qed

lemma weight_simps [simp]:
  "weight [] = 0"
  "weight (x # xs) = token_weight x + weight xs"
  "weight (xs @ ys) = weight xs + weight ys"
  by (simp_all add: weight_def)

lemma fragments_after_weight:
  "fragments_after xs k = Some j \<Longrightarrow> int j = int k + weight xs"
proof (induction xs arbitrary: k)
  case Nil
  then show ?case by simp
next
  case (Cons x xs)
  show ?case
  proof (cases "itype x")
    case OPERAND
    then show ?thesis using Cons.prems Cons.IH [of "k + 1"] by (simp add: token_weight_def)
  next
    case CONCATENATION
    then show ?thesis
      using Cons.prems Cons.IH [of "k - 1"] by (auto simp: token_weight_def split: if_splits)
  next
    case ALTERNATION
    then show ?thesis
      using Cons.prems Cons.IH [of "k - 1"] by (auto simp: token_weight_def split: if_splits)
  next
    case KLEENE_STAR
    then show ?thesis
      using Cons.prems Cons.IH [of k] by (auto simp: token_weight_def split: if_splits)
  next
    case POSITIVE_CLOSURE
    then show ?thesis
      using Cons.prems Cons.IH [of k] by (auto simp: token_weight_def split: if_splits)
  next
    case OPTIONAL
    then show ?thesis
      using Cons.prems Cons.IH [of k] by (auto simp: token_weight_def split: if_splits)
  next
    case L_PARENTHESIS
    then show ?thesis using Cons.prems Cons.IH [of k] by (simp add: token_weight_def)
  next
    case R_PARENTHESIS
    then show ?thesis using Cons.prems Cons.IH [of k] by (simp add: token_weight_def)
  qed
qed

lemma pop_higher_weight:
  "pop_higher cur stack out = (stack', out') \<Longrightarrow>
     weight stack' + weight out' = weight stack + weight out"
  by (induction stack arbitrary: out) (auto split: if_splits)

lemma pop_to_paren_weight:
  "pop_to_paren stack out = (stack', out') \<Longrightarrow>
     weight stack' + weight out' = weight stack + weight out"
  by (induction stack arbitrary: out) (auto split: if_splits)

lemma pop_to_paren_top:
  "pop_to_paren stack out = (t # stack', out') \<Longrightarrow> itype t = L_PARENTHESIS"
  by (induction stack arbitrary: out) (auto split: if_splits)

lemma pop_rest_weight:
  "pop_rest stack out = Some postfix \<Longrightarrow> weight postfix = weight stack + weight out"
  by (induction stack arbitrary: out) (auto split: if_splits)

lemma sy_loop_weight:
  "sy_loop toks stack out = Some postfix \<Longrightarrow>
     weight postfix = weight toks + weight stack + weight out"
proof (induction toks arbitrary: stack out)
  case Nil
  then show ?case using pop_rest_weight by simp
next
  case (Cons x toks)
  show ?case
  proof (cases "itype x")
    case OPERAND
    then show ?thesis using Cons.prems Cons.IH [of stack "out @ [x]"] by simp
  next
    case L_PARENTHESIS
    then show ?thesis using Cons.prems Cons.IH [of "x # stack" out] by simp
  next
    case R_PARENTHESIS
    obtain stack' out' where p: "pop_to_paren stack out = (stack', out')"
      by (cases "pop_to_paren stack out")
    then obtain t stack'' where s: "stack' = t # stack''"
      using Cons.prems R_PARENTHESIS by (cases stack') auto
    have "itype t = L_PARENTHESIS" using p s pop_to_paren_top by blast
    then have "token_weight t = 0" by (simp add: token_weight_def)
    moreover have "token_weight x = 0" using R_PARENTHESIS by (simp add: token_weight_def)
    moreover have "weight postfix = weight toks + weight stack'' + weight out'"
      using Cons.prems R_PARENTHESIS p s Cons.IH [of stack'' out'] by simp
    ultimately show ?thesis using pop_to_paren_weight [OF p] s by simp
  next
    case CONCATENATION
    obtain stack' out' where p: "pop_higher x stack out = (stack', out')"
      by (cases "pop_higher x stack out")
    have "weight postfix = weight toks + weight (x # stack') + weight out'"
      using Cons.prems CONCATENATION p Cons.IH [of "x # stack'" out'] by simp
    then show ?thesis using pop_higher_weight [OF p] by simp
  next
    case ALTERNATION
    obtain stack' out' where p: "pop_higher x stack out = (stack', out')"
      by (cases "pop_higher x stack out")
    have "weight postfix = weight toks + weight (x # stack') + weight out'"
      using Cons.prems ALTERNATION p Cons.IH [of "x # stack'" out'] by simp
    then show ?thesis using pop_higher_weight [OF p] by simp
  next
    case KLEENE_STAR
    obtain stack' out' where p: "pop_higher x stack out = (stack', out')"
      by (cases "pop_higher x stack out")
    have "weight postfix = weight toks + weight (x # stack') + weight out'"
      using Cons.prems KLEENE_STAR p Cons.IH [of "x # stack'" out'] by simp
    then show ?thesis using pop_higher_weight [OF p] by simp
  next
    case POSITIVE_CLOSURE
    obtain stack' out' where p: "pop_higher x stack out = (stack', out')"
      by (cases "pop_higher x stack out")
    have "weight postfix = weight toks + weight (x # stack') + weight out'"
      using Cons.prems POSITIVE_CLOSURE p Cons.IH [of "x # stack'" out'] by simp
    then show ?thesis using pop_higher_weight [OF p] by simp
  next
    case OPTIONAL
    obtain stack' out' where p: "pop_higher x stack out = (stack', out')"
      by (cases "pop_higher x stack out")
    have "weight postfix = weight toks + weight (x # stack') + weight out'"
      using Cons.prems OPTIONAL p Cons.IH [of "x # stack'" out'] by simp
    then show ?thesis using pop_higher_weight [OF p] by simp
  qed
qed

lemma expand_spec_hd: "\<exists>ys. expand_spec (x # xs) = x # ys"
  by (cases xs) auto

lemma no_implicit_concat_expand_spec: "no_implicit_concat (expand_spec xs)"
proof (induction xs rule: expand_spec.induct)
  case 1
  then show ?case by simp
next
  case (2 x)
  then show ?case by simp
next
  case (3 l r rest)
  obtain ys where ys: "expand_spec (r # rest) = r # ys"
    using expand_spec_hd by blast
  have ih: "no_implicit_concat (r # ys)"
    using 3 ys by (cases "can_end l \<and> can_begin r") simp_all
  show ?case
  proof (cases "can_end l \<and> can_begin r")
    case True
    then show ?thesis using ih ys by (simp add: can_end_def can_begin_def)
  next
    case False
    then show ?thesis using ih ys by auto
  qed
qed

text \<open>In a sequence without implicit concatenation the literals never outnumber the
  binary operators by more than one, and they do so by exactly one only when every
  operator has its operands.\<close>

lemma weight_bound:
  assumes "no_implicit_concat toks"
    and "ready \<longrightarrow> toks = [] \<or> \<not> can_begin (hd toks)"
  shows "weight toks + (if ready then 1 else 0) \<le> 1"
  using assms
proof (induction toks arbitrary: ready)
  case Nil
  then show ?case by simp
next
  case (Cons x toks)
  have tl: "no_implicit_concat toks"
    using Cons.prems(1) by (cases toks) simp_all
  have nxt: "can_end x \<longrightarrow> toks = [] \<or> \<not> can_begin (hd toks)"
    using Cons.prems(1) by (cases toks) simp_all
  have ih1: "can_end x \<Longrightarrow> weight toks + 1 \<le> 1"
    using Cons.IH [OF tl, of True] nxt by simp
  have ih0: "weight toks \<le> 1"
    using Cons.IH [OF tl, of False] by simp
  show ?case
    using Cons.prems(2) ih1 ih0
    by (cases "itype x"; cases ready)
      (auto simp: token_weight_def can_end_def can_begin_def)
qed

lemma weight_not_in_place:
  assumes "no_implicit_concat toks"
    and "ready \<longrightarrow> toks = [] \<or> \<not> can_begin (hd toks)"
    and "\<not> operands_in_place ready toks"
  shows "weight toks + (if ready then 1 else 0) \<le> 0"
  using assms
proof (induction toks arbitrary: ready)
  case Nil
  then show ?case by simp
next
  case (Cons x toks)
  have tl: "no_implicit_concat toks"
    using Cons.prems(1) by (cases toks) simp_all
  have nxt: "can_end x \<longrightarrow> toks = [] \<or> \<not> can_begin (hd toks)"
    using Cons.prems(1) by (cases toks) simp_all
  have b1: "can_end x \<Longrightarrow> weight toks + 1 \<le> 1"
    using weight_bound [OF tl, of True] nxt by simp
  have b0: "weight toks \<le> 1"
    using weight_bound [OF tl, of False] by simp
  have ih1: "can_end x \<Longrightarrow> \<not> operands_in_place True toks \<Longrightarrow> weight toks + 1 \<le> 0"
    using Cons.IH [OF tl, of True] nxt by simp
  have ih0: "\<not> operands_in_place False toks \<Longrightarrow> weight toks \<le> 0"
    using Cons.IH [OF tl, of False] by simp
  show ?case
    using Cons.prems(2,3) b1 b0 ih1 ih0
    by (cases "itype x"; cases ready)
      (auto simp: token_weight_def can_end_def can_begin_def)
qed

lemma parse_regex_success:
  assumes "items (parse_regex (Some pattern)) \<noteq> None"
  shows "\<exists>postfix.
      sy_loop (expand_spec (tokenize_spec pattern)) [] [] = Some postfix \<and>
      regex_items (parse_regex (Some pattern)) = postfix"
  using assms
  by (auto simp: parse_regex_spec empty_regex_def regex_items_def
      split: if_splits option.splits)

text \<open>
  Claim C1, as stated, fails: \<open>parse_regex\<close> checks the parentheses only. On the pattern
  \<open>*\<close> it succeeds with the one-item postfix sequence \<open>*\<close>, and \<open>regex_to_nfa\<close> then
  reads a fragment from its empty stack. (The builder fails before any transition is
  made, so the value of the epsilon symbol plays no part.)
\<close>

theorem star_alone_underflows:
  "parse_regex (Some ''*'') =
     \<lparr>items = Some [\<lparr>ivalue = CHR ''*'', itype = KLEENE_STAR\<rparr>], rsize = 1\<rparr> \<and>
   regex_to_nfa (CHR 0x00) (parse_regex (Some ''*'')) = Inl STACK_UNDERFLOW \<and>
   fragments_after (regex_items (parse_regex (Some ''*''))) 0 = None"
  by (simp add: eval_defs)

text \<open>
  Claim C1, amended. Let \<open>parse_regex\<close> succeed on a pattern. If every operator of the
  pattern has its operands (\<open>well_formed\<close>: after concatenation expansion each literal
  and opening parenthesis stands at the start, after a binary operator or after an
  opening parenthesis, each operator and closing parenthesis stands after a literal, a
  closing parenthesis or a unary operator, and the last token completes an operand),
  then \<open>regex_to_nfa\<close> consumes the postfix sequence without reading below its stack
  and exactly one fragment remains. Otherwise the builder reads below its stack or ends
  with an empty stack.
\<close>

theorem builder_needs_operands:
  assumes "items (parse_regex (Some pattern)) \<noteq> None"
  shows "(well_formed pattern \<longrightarrow>
            (\<exists>m f.
               build_loop EPSILON_SYMBOL (regex_items (parse_regex (Some pattern)))
                 (new_states_manager EPSILON_SYMBOL) [] = Inr (m, [f]) \<and>
               regex_to_nfa EPSILON_SYMBOL (parse_regex (Some pattern)) =
                 Inr (t_nfa_to_nfa EPSILON_SYMBOL f m))) \<and>
         (\<not> well_formed pattern \<longrightarrow>
            build_loop EPSILON_SYMBOL (regex_items (parse_regex (Some pattern)))
              (new_states_manager EPSILON_SYMBOL) [] = Inl STACK_UNDERFLOW \<or>
            (\<exists>m. build_loop EPSILON_SYMBOL (regex_items (parse_regex (Some pattern)))
                   (new_states_manager EPSILON_SYMBOL) [] = Inr (m, [])))"
proof -
  let ?toks = "expand_spec (tokenize_spec pattern)"
  let ?m0 = "new_states_manager EPSILON_SYMBOL"
  obtain postfix where sy: "sy_loop ?toks [] [] = Some postfix"
      and ri: "regex_items (parse_regex (Some pattern)) = postfix"
    using parse_regex_success [OF assms] by blast
  have w: "weight postfix = weight ?toks"
    using sy_loop_weight [OF sy] by simp
  have fwd: "\<exists>m f. build_loop EPSILON_SYMBOL postfix ?m0 [] = Inr (m, [f]) \<and>
      regex_to_nfa EPSILON_SYMBOL (parse_regex (Some pattern)) =
        Inr (t_nfa_to_nfa EPSILON_SYMBOL f m)" if "well_formed pattern"
  proof -
    have "operands_in_place False ?toks" using that by (simp add: well_formed_def)
    then have "fragments_after postfix 0 = Some 1"
      using sy_loop_inv [of False ?toks "[]" "[]" postfix] sy
      by (simp add: operators_only_def binary_count_def)
    then obtain m st where b: "build_loop EPSILON_SYMBOL postfix ?m0 [] = Inr (m, st)"
        and l: "length st = 1"
      using build_loop_fragments_Some [of postfix "[]" 1 EPSILON_SYMBOL ?m0] by auto
    obtain f where st: "st = [f]" using l by (cases st) auto
    have "regex_to_nfa EPSILON_SYMBOL (parse_regex (Some pattern)) =
        Inr (t_nfa_to_nfa EPSILON_SYMBOL f m)"
      using b st ri by (simp add: regex_to_nfa_def)
    then show ?thesis using b st by blast
  qed
  have bwd: "build_loop EPSILON_SYMBOL postfix ?m0 [] = Inl STACK_UNDERFLOW \<or>
      (\<exists>m. build_loop EPSILON_SYMBOL postfix ?m0 [] = Inr (m, []))"
    if "\<not> well_formed pattern"
  proof -
    have "\<not> operands_in_place False ?toks" using that by (simp add: well_formed_def)
    then have "weight ?toks + (if False then 1 else 0) \<le> 0"
      by (intro weight_not_in_place no_implicit_concat_expand_spec) simp_all
    then have le: "weight postfix \<le> 0"
      using w by simp
    show ?thesis
    proof (cases "fragments_after postfix 0")
      case None
      then show ?thesis
        using build_loop_fragments_None [of postfix "[]" EPSILON_SYMBOL ?m0] by simp
    next
      case (Some k)
      then have "int k = weight postfix" using fragments_after_weight by fastforce
      then have "k = 0" using le by simp
      then show ?thesis
        using Some build_loop_fragments_Some [of postfix "[]" k EPSILON_SYMBOL ?m0] by auto
    qed
  qed
  show ?thesis using fwd bwd ri by simp
qed

theorem builder_needs_operands_witness:
  "well_formed ''(ab)*c'' \<and>
   (\<exists>m f.
      build_loop (CHR 0x00) (regex_items (parse_regex (Some ''(ab)*c'')))
        (new_states_manager (CHR 0x00)) [] = Inr (m, [f])) \<and>
   \<not> well_formed ''()'' \<and>
   (\<exists>m. build_loop (CHR 0x00) (regex_items (parse_regex (Some ''()'')))
          (new_states_manager (CHR 0x00)) [] = Inr (m, []))"
proof -
  have a: "items (parse_regex (Some ''(ab)*c'')) \<noteq> None"
    by (simp add: eval_defs)
  have b: "well_formed ''(ab)*c''"
    by (simp add: well_formed_def eval_defs)
  have c: "items (parse_regex (Some ''()'')) \<noteq> None"
    by (simp add: eval_defs)
  have d: "\<not> well_formed ''()''"
    by (simp add: well_formed_def eval_defs)
  have e: "build_loop (CHR 0x00) (regex_items (parse_regex (Some ''()'')))
      (new_states_manager (CHR 0x00)) [] \<noteq> Inl STACK_UNDERFLOW"
    by (simp add: eval_defs)
  show ?thesis
    using builder_needs_operands [OF a, of "CHR 0x00"]
      builder_needs_operands [OF c, of "CHR 0x00"] b d e
    by blast
qed

end
